theory Spec2Isabelle
  imports Main "HOL-Library.Word" "HOL-Library.Monad_Syntax" "HOL-Library.Sublist"
begin

unbundle bit_operations_syntax

section \<open>Bytes and strings\<close>

text \<open>
  A C++ \<open>std::string\<close> is a sequence of bytes; \<open>unsigned char\<close> is an 8-bit word, so
  that \<open>c + 32\<close> cast back to \<open>char\<close> wraps as in the source. \<open>size_t\<close> positions are
  natural numbers (a string never holds \<open>2^64\<close> bytes). \<open>uint32_t\<close> is a 32-bit word.
\<close>

type_synonym byte = "8 word"
type_synonym str = "byte list"
type_synonym u32 = "32 word"

definition bytes_of :: "string \<Rightarrow> str" where
  "bytes_of s = map of_char s"

text \<open>
  \<open>s[i]\<close> as a checked read: \<open>std::string::operator[]\<close> tests nothing, and \<open>None\<close>
  marks a read outside the string. Every function of the tokenizer is written with it,
  so that a bounds test missing in the source shows up as a \<open>None\<close> result.
\<close>

definition byte_at :: "str \<Rightarrow> nat \<Rightarrow> byte option" where
  "byte_at s i = (if i < length s then Some (s ! i) else None)"

text \<open>\<open>s.substr(pos, n)\<close>: throws when \<open>pos > size\<close>, clips \<open>n\<close> to the end.\<close>

definition substr :: "str \<Rightarrow> nat \<Rightarrow> nat \<Rightarrow> str option" where
  "substr s pos n = (if pos \<le> length s then Some (take n (drop pos s)) else None)"

section \<open>Tokenizer (lab3\_text/cpp/tokenizer.cpp)\<close>

definition is_ascii_letter :: "byte \<Rightarrow> bool" where
  "is_ascii_letter c = ((0x41 \<le> c \<and> c \<le> 0x5A) \<or> (0x61 \<le> c \<and> c \<le> 0x7A))"

definition is_digit :: "byte \<Rightarrow> bool" where
  "is_digit c = (0x30 \<le> c \<and> c \<le> 0x39)"

definition is_cyrillic_start :: "byte \<Rightarrow> byte \<Rightarrow> bool" where
  "is_cyrillic_start c1 c2 =
     ((c1 = 0xD0 \<and> 0x80 \<le> c2 \<and> c2 \<le> 0xBF) \<or> (c1 = 0xD1 \<and> 0x80 \<le> c2 \<and> c2 \<le> 0xBF))"

text \<open>
  \<open>is_token_char\<close> returns its \<open>bool\<close> together with the value it stores in the
  reference parameter \<open>advance\<close>. \<open>0x2D\<close> is \<open>'-'\<close>, \<open>0x27\<close> is the apostrophe.
\<close>

definition is_token_char :: "str \<Rightarrow> nat \<Rightarrow> bool \<Rightarrow> bool \<Rightarrow> (bool \<times> nat) option" where
  "is_token_char text pos keep_dashes keep_apostrophes =
     (if pos \<ge> length text then Some (False, 0)
      else do {
        c \<leftarrow> byte_at text pos;
        if is_ascii_letter c \<or> is_digit c then Some (True, 1)
        else do {
          cyr \<leftarrow> (if pos + 1 < length text
                  then do { c2 \<leftarrow> byte_at text (pos + 1); Some (is_cyrillic_start c c2) }
                  else Some False);
          if cyr then Some (True, 2)
          else if keep_dashes \<and> c = 0x2D then Some (True, 1)
          else if keep_apostrophes \<and> c = 0x27 then Some (True, 1)
          else Some (False, 1)
        }
      })"

text \<open>
  The loop of \<open>utf8_char_count\<close>. The step depends on the lead byte alone and may pass
  the end of the string; the loop test then ends the loop with no further read.
\<close>

function utf8_char_count_loop :: "str \<Rightarrow> nat \<Rightarrow> nat \<Rightarrow> nat option" where
  "utf8_char_count_loop s i count =
     (if i < length s then
        do {
          c \<leftarrow> byte_at s i;
          utf8_char_count_loop s
            (if c < 0x80 then i + 1
             else if c AND 0xE0 = 0xC0 then i + 2
             else if c AND 0xF0 = 0xE0 then i + 3
             else if c AND 0xF8 = 0xF0 then i + 4
             else i + 1)
            (count + 1)
        }
      else Some count)"
  by pat_completeness auto
termination
  by (relation "measure (\<lambda>(s, i, count). length s - i)") auto

declare utf8_char_count_loop.simps [simp del]

definition utf8_char_count :: "str \<Rightarrow> nat option" where
  "utf8_char_count s = utf8_char_count_loop s 0 0"

record tokenizer =
  lowercase :: bool
  keep_dashes :: bool
  keep_apostrophes :: bool
  min_token_length :: nat

text \<open>The constructor's defaults.\<close>

definition Tokenizer :: tokenizer where
  "Tokenizer = \<lparr>lowercase = True, keep_dashes = True, keep_apostrophes = True,
                 min_token_length = 1\<rparr>"

text \<open>
  The loop of \<open>to_lower\<close>. \<open>str[i + 1]\<close> is read only where \<open>i + 1 < str.size()\<close> holds
  and \<open>str[i]\<close> is \<open>0xD0\<close>, as the short-circuit \<open>&&\<close> of the source has it.
\<close>

function to_lower_loop :: "str \<Rightarrow> nat \<Rightarrow> str \<Rightarrow> str option" where
  "to_lower_loop s i result =
     (if i < length s then
        do {
          c \<leftarrow> byte_at s i;
          if 0x41 \<le> c \<and> c \<le> 0x5A then to_lower_loop s (i + 1) (result @ [c + 32])
          else do {
            upper \<leftarrow> (if i + 1 < length s \<and> c = 0xD0
                      then do { d \<leftarrow> byte_at s (i + 1); Some (0x90 \<le> d \<and> d \<le> 0xAF) }
                      else Some False);
            if upper then do { d \<leftarrow> byte_at s (i + 1);
                               to_lower_loop s (i + 2) (result @ [0xD0, d + 0x20]) }
            else do {
              yo \<leftarrow> (if i + 1 < length s \<and> c = 0xD0
                     then do { d \<leftarrow> byte_at s (i + 1); Some (d = 0x81) }
                     else Some False);
              if yo then to_lower_loop s (i + 2) (result @ [0xD1, 0x91])
              else to_lower_loop s (i + 1) (result @ [c])
            }
          }
        }
      else Some result)"
  by pat_completeness auto
termination
  by (relation "measure (\<lambda>(s, i, result). length s - i)") auto

declare to_lower_loop.simps [simp del]

definition to_lower :: "str \<Rightarrow> str option" where
  "to_lower s = to_lower_loop s 0 []"

text \<open>The loop of \<open>is_valid_token\<close>, which looks for a letter or a digit.\<close>

function has_letter_loop :: "str \<Rightarrow> nat \<Rightarrow> bool option" where
  "has_letter_loop token i =
     (if i < length token then
        do {
          c \<leftarrow> byte_at token i;
          if is_ascii_letter c \<or> is_digit c then Some True
          else do {
            cyr \<leftarrow> (if i + 1 < length token
                    then do { c2 \<leftarrow> byte_at token (i + 1); Some (is_cyrillic_start c c2) }
                    else Some False);
            if cyr then Some True else has_letter_loop token (i + 1)
          }
        }
      else Some False)"
  by pat_completeness auto
termination
  by (relation "measure (\<lambda>(token, i). length token - i)") auto

declare has_letter_loop.simps [simp del]

definition is_valid_token :: "tokenizer \<Rightarrow> str \<Rightarrow> bool option" where
  "is_valid_token tk token =
     (if token = [] then Some False
      else do {
        char_count \<leftarrow> utf8_char_count token;
        if char_count < min_token_length tk then Some False
        else has_letter_loop token 0
      })"

text \<open>The two trimming loops of \<open>tokenize\<close>: each tests \<open>!token.empty()\<close> first.\<close>

fun trim_front :: "str \<Rightarrow> str" where
  "trim_front [] = []"
| "trim_front (c # cs) = (if c = 0x2D \<or> c = 0x27 then trim_front cs else c # cs)"

function trim_back :: "str \<Rightarrow> str" where
  "trim_back token =
     (if token \<noteq> [] \<and> (last token = 0x2D \<or> last token = 0x27)
      then trim_back (butlast token) else token)"
  by pat_completeness auto
termination
  by (relation "measure length") auto

declare trim_back.simps [simp del]

text \<open>The first inner loop of \<open>tokenize\<close>: skip bytes that are not token characters.\<close>

function skip_separators :: "tokenizer \<Rightarrow> str \<Rightarrow> nat \<Rightarrow> nat option" where
  "skip_separators tk text i =
     (if i < length text then
        do {
          r \<leftarrow> is_token_char text i (keep_dashes tk) (keep_apostrophes tk);
          if \<not> fst r then skip_separators tk text (i + 1) else Some i
        }
      else Some i)"
  by pat_completeness auto
termination
  by (relation "measure (\<lambda>(tk, text, i). length text - i)") auto

declare skip_separators.simps [simp del]

lemma is_token_char_advance:
  assumes "is_token_char text pos kd ka = Some (True, advance)"
  shows "1 \<le> advance \<and> pos + advance \<le> length text"
  using assms
  by (auto simp: is_token_char_def byte_at_def split: if_splits bind_splits)

text \<open>
  The second inner loop: \<open>i += advance\<close> while the byte at \<open>i\<close> is a token character.
  It terminates because \<open>is_token_char\<close> never answers \<open>true\<close> with \<open>advance = 0\<close>.
\<close>

function scan_token :: "tokenizer \<Rightarrow> str \<Rightarrow> nat \<Rightarrow> nat option" where
  "scan_token tk text i =
     (if i < length text then
        do {
          r \<leftarrow> is_token_char text i (keep_dashes tk) (keep_apostrophes tk);
          if fst r then scan_token tk text (i + snd r) else Some i
        }
      else Some i)"
  by pat_completeness auto
termination
proof (relation "measure (\<lambda>(tk, s, i). length s - i)")
  show "wf (measure (\<lambda>(tk, s, i). length s - i))" by simp
next
  fix tk :: tokenizer and s :: str and i :: nat and r :: "bool \<times> nat"
  assume lt: "i < length s"
    and r: "is_token_char s i (keep_dashes tk) (keep_apostrophes tk) = Some r"
    and tc: "fst r"
  from r tc have "is_token_char s i (keep_dashes tk) (keep_apostrophes tk) = Some (True, snd r)"
    by (cases r) simp
  then have "1 \<le> snd r" by (rule is_token_char_advance [THEN conjunct1])
  with lt show "((tk, s, i + snd r), (tk, s, i)) \<in> measure (\<lambda>(tk, s, i). length s - i)"
    by simp
qed

declare scan_token.simps [simp del]

lemma skip_separators_result:
  assumes "skip_separators tk s i = Some j"
  shows "i \<le> j \<and> (j < length s \<longrightarrow>
           (\<exists>advance. is_token_char s j (keep_dashes tk) (keep_apostrophes tk) = Some (True, advance)))"
  using assms
proof (induction tk s i rule: skip_separators.induct)
  case (1 tk s i)
  show ?case
  proof (cases "i < length s")
    case False
    with "1.prems" show ?thesis by (simp add: skip_separators.simps [of tk s i])
  next
    case True
    note unfold = skip_separators.simps [of tk s i]
    from True obtain r where r: "is_token_char s i (keep_dashes tk) (keep_apostrophes tk) = Some r"
      using "1.prems" by (auto simp: unfold split: bind_splits)
    show ?thesis
    proof (cases "fst r")
      case True
      with \<open>i < length s\<close> r "1.prems" have "j = i" by (simp add: unfold)
      moreover from r True
      have "is_token_char s i (keep_dashes tk) (keep_apostrophes tk) = Some (True, snd r)"
        by (cases r) simp
      ultimately show ?thesis by blast
    next
      case False
      with \<open>i < length s\<close> r "1.prems" have "skip_separators tk s (i + 1) = Some j"
        by (simp add: unfold)
      with "1.IH" [OF \<open>i < length s\<close> r] False show ?thesis by fastforce
    qed
  qed
qed

lemma scan_token_progress:
  assumes "scan_token tk s i = Some j"
    and "is_token_char s i (keep_dashes tk) (keep_apostrophes tk) = Some (True, advance)"
    and "i < length s"
  shows "i < j"
proof -
  have mono: "scan_token tk s k = Some j \<Longrightarrow> k \<le> j" for k
  proof (induction tk s k rule: scan_token.induct)
    case (1 tk s k)
    show ?case
    proof (cases "k < length s")
      case False
      with "1.prems" show ?thesis by (simp add: scan_token.simps [of tk s k])
    next
      case True
      note unfold = scan_token.simps [of tk s k]
      from True obtain r where r: "is_token_char s k (keep_dashes tk) (keep_apostrophes tk) = Some r"
        using "1.prems" by (auto simp: unfold split: bind_splits)
      show ?thesis
      proof (cases "fst r")
        case False
        with True r "1.prems" show ?thesis by (simp add: unfold)
      next
        case fr: True
        with True r "1.prems" have "scan_token tk s (k + snd r) = Some j" by (simp add: unfold)
        with "1.IH" [OF True r fr] show ?thesis by simp
      qed
    qed
  qed
  from assms have "scan_token tk s (i + advance) = Some j"
    by (simp add: scan_token.simps [of tk s i])
  then have "i + advance \<le> j" by (rule mono)
  moreover from assms(2) have "1 \<le> advance" by (rule is_token_char_advance [THEN conjunct1])
  ultimately show ?thesis by simp
qed

text \<open>
  The outer loop of \<open>tokenize\<close>. When the separators reach the end of the text the
  source goes back to the loop test, which then fails.
\<close>

function tokenize_loop :: "tokenizer \<Rightarrow> str \<Rightarrow> nat \<Rightarrow> str list \<Rightarrow> str list option" where
  "tokenize_loop tk text i tokens =
     (if i < length text then
        do {
          token_start \<leftarrow> skip_separators tk text i;
          if token_start < length text then
            do {
              i' \<leftarrow> scan_token tk text token_start;
              raw \<leftarrow> substr text token_start (i' - token_start);
              token \<leftarrow> (if lowercase tk then to_lower (trim_back (trim_front raw))
                        else Some (trim_back (trim_front raw)));
              valid \<leftarrow> is_valid_token tk token;
              tokenize_loop tk text i' (if valid then tokens @ [token] else tokens)
            }
          else tokenize_loop tk text token_start tokens
        }
      else Some tokens)"
  by pat_completeness auto
termination
proof (relation "measure (\<lambda>(tk, s, i, tokens). length s - i)")
  show "wf (measure (\<lambda>(tk, s, i, tokens). length s - i))" by simp
next
  fix tk :: tokenizer and s :: str and i j k :: nat and tokens :: "str list"
  assume "i < length s" and sk: "skip_separators tk s i = Some j" and "j < length s"
    and sc: "scan_token tk s j = Some k"
  from skip_separators_result [OF sk] \<open>j < length s\<close>
  obtain advance where "i \<le> j"
    and "is_token_char s j (keep_dashes tk) (keep_apostrophes tk) = Some (True, advance)"
    by blast
  with sc \<open>j < length s\<close> have "j < k" by (blast intro: scan_token_progress)
  with \<open>i \<le> j\<close> \<open>i < length s\<close>
  show "((tk, s, k, tokens'), (tk, s, i, tokens)) \<in> measure (\<lambda>(tk, s, i, tokens). length s - i)"
    for tokens'
    by simp
next
  fix tk :: tokenizer and s :: str and i j :: nat and tokens :: "str list"
  assume "i < length s" and "skip_separators tk s i = Some j" and "\<not> j < length s"
  then show "((tk, s, j, tokens), (tk, s, i, tokens)) \<in> measure (\<lambda>(tk, s, i, tokens). length s - i)"
    by simp
qed

declare tokenize_loop.simps [simp del]

definition tokenize :: "tokenizer \<Rightarrow> str \<Rightarrow> str list option" where
  "tokenize tk text = tokenize_loop tk text 0 []"

section \<open>Stemmer (stemmer.hpp)\<close>

definition has_cyrillic :: "str \<Rightarrow> bool" where
  "has_cyrillic s = list_ex (\<lambda>c. 0xD0 \<le> c) s"

text \<open>
  \<open>word.rfind(suf)\<close>: the last position at which \<open>suf\<close> occurs in \<open>word\<close>, \<open>None\<close>
  for \<open>npos\<close>.
\<close>

definition rfind :: "str \<Rightarrow> str \<Rightarrow> nat option" where
  "rfind word suf =
     (if length word < length suf then None
      else find (\<lambda>p. take (length suf) (drop p word) = suf)
             (rev [0 ..< length word - length suf + 1]))"

fun strip_suffix :: "str \<Rightarrow> str list \<Rightarrow> str" where
  "strip_suffix word [] = word"
| "strip_suffix word (suf # rest) =
     (if length word > length suf + 1 \<and> rfind word suf = Some (length word - length suf)
      then take (length word - length suf) word
      else strip_suffix word rest)"

text \<open>The Russian table, as the UTF-8 bytes of the source file, in its declared order.\<close>

definition ru :: "str list" where
  "ru = [
     [0xD0, 0xB8, 0xD1, 0x8F, 0xD0, 0xBC, 0xD0, 0xB8],
     [0xD1, 0x8F, 0xD0, 0xBC, 0xD0, 0xB8],
     [0xD0, 0xB0, 0xD0, 0xBC, 0xD0, 0xB8],
     [0xD0, 0xB8, 0xD0, 0xB5, 0xD0, 0xB9],
     [0xD0, 0xBE, 0xD0, 0xB9],
     [0xD0, 0xB5, 0xD0, 0xB9],
     [0xD0, 0xB8, 0xD0, 0xB8],
     [0xD0, 0xB8, 0xD0, 0xB9],
     [0xD1, 0x8B, 0xD0, 0xB9],
     [0xD0, 0xB8, 0xD1, 0x8F],
     [0xD1, 0x8C, 0xD1, 0x8F],
     [0xD1, 0x8F],
     [0xD0, 0xB8, 0xD1, 0x8E],
     [0xD1, 0x8C, 0xD1, 0x8E],
     [0xD1, 0x8E],
     [0xD0, 0xBE, 0xD0, 0xB2],
     [0xD0, 0xB5, 0xD0, 0xB2],
     [0xD0, 0xB5, 0xD0, 0xBC],
     [0xD0, 0xB0, 0xD0, 0xBC],
     [0xD0, 0xBE, 0xD0, 0xBC],
     [0xD0, 0xB0, 0xD1, 0x85],
     [0xD1, 0x8F, 0xD1, 0x85],
     [0xD0, 0xB8, 0xD1, 0x8F, 0xD0, 0xBC],
     [0xD1, 0x8F, 0xD0, 0xBC],
     [0xD0, 0xB5, 0xD1, 0x8E],
     [0xD0, 0xB8, 0xD0, 0xB5],
     [0xD1, 0x8B, 0xD0, 0xB5],
     [0xD0, 0xBE, 0xD0, 0xB5],
     [0xD0, 0xB8, 0xD0, 0xB5, 0xD1, 0x8E],
     [0xD0, 0xB8, 0xD0, 0xB5, 0xD0, 0xB9]]"

definition en :: "str list" where
  "en = map bytes_of
     [''ingly'', ''edly'', ''ness'', ''ment'', ''ious'', ''tion'', ''sion'', ''able'',
      ''ible'', ''ally'', ''less'', ''ful'', ''est'', ''ers'', ''ies'', ''ing'', ''ed'',
      ''ly'', ''es'', ''s'']"

definition stem_token :: "str \<Rightarrow> str" where
  "stem_token token =
     (if length token \<le> 2 then token
      else if has_cyrillic token then strip_suffix token ru
      else strip_suffix token en)"

section \<open>Index builder (lab4\_bool, the program \<open>builder\<close>)\<close>

text \<open>
  \<open>struct Index\<close>: the document table (a \<open>DocEntry\<close> holds one string, the loader's table
  holds the strings themselves) and the \<open>unordered_map\<close> from terms to posting lists.
\<close>

record index =
  docs :: "str list"
  postings :: "str \<rightharpoonup> u32 list"

text \<open>
  \<open>add_postings\<close>: \<open>seen\<close> is the \<open>unordered_set\<close> of the terms of this document;
  \<open>idx.postings[term]\<close> creates an empty list for a new term.
\<close>

fun add_postings_loop ::
  "(str \<rightharpoonup> u32 list) \<Rightarrow> u32 \<Rightarrow> bool \<Rightarrow> str set \<Rightarrow> str list \<Rightarrow> (str \<rightharpoonup> u32 list)" where
  "add_postings_loop p doc_id use_stem seen [] = p"
| "add_postings_loop p doc_id use_stem seen (tok # tokens) =
     (let term = (if use_stem then stem_token tok else tok) in
      if term = [] then add_postings_loop p doc_id use_stem seen tokens
      else if term \<notin> seen
      then add_postings_loop
             (p(term \<mapsto> (case p term of None \<Rightarrow> [] | Some vec \<Rightarrow> vec) @ [doc_id]))
             doc_id use_stem (insert term seen) tokens
      else add_postings_loop p doc_id use_stem seen tokens)"

definition add_postings :: "index \<Rightarrow> u32 \<Rightarrow> str list \<Rightarrow> bool \<Rightarrow> index" where
  "add_postings idx doc_id tokens use_stem =
     idx\<lparr>postings := add_postings_loop (postings idx) doc_id use_stem {} tokens\<rparr>"

subsection \<open>JSONL parsing\<close>

text \<open>
  \<open>decode_json_string\<close>, on the part of \<open>src\<close> that starts at \<open>pos\<close>; \<open>None\<close> is the
  result \<open>false\<close>. \<open>0x22\<close> is the double quote, \<open>0x5C\<close> the backslash.
\<close>

definition unescape :: "byte \<Rightarrow> byte" where
  "unescape esc =
     (if esc = 0x22 then 0x22
      else if esc = 0x5C then 0x5C
      else if esc = 0x6E then 0x0A
      else if esc = 0x74 then 0x09
      else if esc = 0x72 then 0x0D
      else esc)"

fun decode_loop :: "str \<Rightarrow> str \<Rightarrow> str option" where
  "decode_loop [] out = None"
| "decode_loop (c # src) out =
     (if c = 0x5C then
        (case src of [] \<Rightarrow> None | esc # src' \<Rightarrow> decode_loop src' (out @ [unescape esc]))
      else if c = 0x22 then Some out
      else decode_loop src (out @ [c]))"

definition decode_json_string :: "str \<Rightarrow> str option" where
  "decode_json_string src =
     (case src of [] \<Rightarrow> None | c # src' \<Rightarrow> if c \<noteq> 0x22 then None else decode_loop src' [])"

text \<open>
  \<open>s.find(pat, pos)\<close>: the first position from \<open>pos\<close> on at which \<open>pat\<close> occurs.
\<close>

fun find_first :: "str \<Rightarrow> str \<Rightarrow> nat option" where
  "find_first pat [] = (if pat = [] then Some 0 else None)"
| "find_first pat (c # cs) =
     (if prefix pat (c # cs) then Some 0 else map_option Suc (find_first pat cs))"

definition find_from :: "str \<Rightarrow> str \<Rightarrow> nat \<Rightarrow> nat option" where
  "find_from s pat pos =
     (if pos \<le> length s then map_option (\<lambda>k. pos + k) (find_first pat (drop pos s)) else None)"

text \<open>\<open>std::isspace\<close> in the C locale.\<close>

definition isspace :: "byte \<Rightarrow> bool" where
  "isspace c = (c = 0x20 \<or> (0x09 \<le> c \<and> c \<le> 0x0D))"

text \<open>\<open>while (p < line.size() && P(line[p])) ++p\<close>\<close>

definition skip_while :: "(byte \<Rightarrow> bool) \<Rightarrow> str \<Rightarrow> nat \<Rightarrow> nat" where
  "skip_while P line p = p + length (takeWhile P (drop p line))"

definition extract_field :: "str \<Rightarrow> str \<Rightarrow> str option" where
  "extract_field line key =
     (let pattern = [0x22] @ key @ [0x22] in
      case find_from line pattern 0 of
        None \<Rightarrow> None
      | Some p \<Rightarrow>
          (case find_from line [0x3A] (p + length pattern) of
             None \<Rightarrow> None
           | Some p1 \<Rightarrow>
               let p2 = skip_while isspace line p1 in
               if p2 \<ge> length line then None
               else let p3 = skip_while (\<lambda>c. c \<noteq> 0x22) line p2 in
                 if p3 \<ge> length line then None
                 else decode_json_string (drop p3 line)))"

subsection \<open>The build loop of \<open>main\<close>\<close>

text \<open>
  The corpus is the list of lines \<open>std::getline\<close> returns. The state of the loop is the
  index and the counter \<open>doc_id\<close>, a \<open>uint32_t\<close>. \<open>None\<close> stands for a read outside a
  string in the tokenizer.
\<close>

definition builder_tokenizer :: tokenizer where
  "builder_tokenizer = Tokenizer\<lparr>lowercase := True, min_token_length := 2\<rparr>"

definition process_line :: "bool \<Rightarrow> index \<times> u32 \<Rightarrow> str \<Rightarrow> (index \<times> u32) option" where
  "process_line use_stem st line =
     (if line = [] then Some st
      else case extract_field line (bytes_of ''id'') of
        None \<Rightarrow> Some st
      | Some ident \<Rightarrow>
          (case extract_field line (bytes_of ''text'') of
             None \<Rightarrow> Some st
           | Some txt \<Rightarrow>
               do {
                 tokens \<leftarrow> tokenize builder_tokenizer txt;
                 Some (add_postings ((fst st)\<lparr>docs := docs (fst st) @ [ident]\<rparr>)
                         (snd st) tokens use_stem,
                       snd st + 1)
               }))"

fun read_corpus :: "bool \<Rightarrow> index \<times> u32 \<Rightarrow> str list \<Rightarrow> (index \<times> u32) option" where
  "read_corpus use_stem st [] = Some st"
| "read_corpus use_stem st (line # lines) =
     do { st' \<leftarrow> process_line use_stem st line; read_corpus use_stem st' lines }"

text \<open>
  The finalization loop: \<open>std::sort\<close>, then \<open>std::unique\<close> with \<open>erase\<close>, on every
  posting list.
\<close>

definition finalize :: "index \<Rightarrow> index" where
  "finalize idx =
     idx\<lparr>postings := (\<lambda>t. map_option (\<lambda>v. remdups_adj (sort v)) (postings idx t))\<rparr>"

definition build_index :: "str list \<Rightarrow> bool \<Rightarrow> index option" where
  "build_index lines use_stem =
     do {
       st \<leftarrow> read_corpus use_stem (\<lparr>docs = [], postings = Map.empty\<rparr>, 0) lines;
       Some (finalize (fst st))
     }"

subsection \<open>Writing the index file\<close>

text \<open>
  The file is the list of bytes written. \<open>write_uint32\<close> writes the four bytes of the
  value as they lie in memory, least significant first. \<open>write_string\<close> casts the size
  to \<open>uint32_t\<close> and writes that many bytes.
\<close>

definition write_uint32 :: "u32 \<Rightarrow> byte list" where
  "write_uint32 v = [ucast v, ucast (drop_bit 8 v), ucast (drop_bit 16 v), ucast (drop_bit 24 v)]"

definition write_string :: "str \<Rightarrow> byte list" where
  "write_string s =
     (let len = (of_nat (length s) :: u32) in write_uint32 len @ take (unat len) s)"

text \<open>
  The order in which the \<open>unordered_map\<close> is traversed is not specified: \<open>save_index\<close>
  takes it as the list \<open>ks\<close> of the keys, each key once. \<open>idx.postings.size()\<close> is the
  length of \<open>ks\<close>. A posting list is written whole, after its size cast to \<open>uint32_t\<close>.
\<close>

definition write_posting :: "index \<Rightarrow> str \<Rightarrow> byte list" where
  "write_posting idx k =
     (case postings idx k of
        None \<Rightarrow> []
      | Some plist \<Rightarrow>
          write_string k @ write_uint32 (of_nat (length plist)) @ concat (map write_uint32 plist))"

definition save_index :: "index \<Rightarrow> str list \<Rightarrow> byte list" where
  "save_index idx ks =
     bytes_of ''BIDX1''
     @ write_uint32 (of_nat (length (docs idx)))
     @ write_uint32 (of_nat (length ks))
     @ concat (map write_string (docs idx))
     @ concat (map (write_posting idx) ks)"

section \<open>Searcher (lab4\_bool, the program \<open>bsearch\<close>)\<close>

subsection \<open>Reading the index file\<close>

text \<open>
  \<open>load_index\<close> throws on a wrong magic. It never tests whether a read came short:
  on a file that ends early the source goes on with indeterminate values, which the
  model reports as \<open>Short_Read\<close>.
\<close>

datatype load_fault = Bad_Index_File | Short_Read

definition read_bytes :: "nat \<Rightarrow> byte list \<Rightarrow> load_fault + (byte list \<times> byte list)" where
  "read_bytes n inp = (if n \<le> length inp then Inr (take n inp, drop n inp) else Inl Short_Read)"

fun uint32_of_bytes :: "byte list \<Rightarrow> u32" where
  "uint32_of_bytes [b0, b1, b2, b3] =
     ucast b0 OR push_bit 8 (ucast b1) OR push_bit 16 (ucast b2) OR push_bit 24 (ucast b3)"
| "uint32_of_bytes bs = 0"

definition read_uint32 :: "byte list \<Rightarrow> load_fault + (u32 \<times> byte list)" where
  "read_uint32 inp =
     (case read_bytes 4 inp of Inl e \<Rightarrow> Inl e | Inr (bs, inp') \<Rightarrow> Inr (uint32_of_bytes bs, inp'))"

definition read_string :: "byte list \<Rightarrow> load_fault + (str \<times> byte list)" where
  "read_string inp =
     (case read_uint32 inp of Inl e \<Rightarrow> Inl e | Inr (len, inp') \<Rightarrow> read_bytes (unat len) inp')"

fun uint32s_of_bytes :: "byte list \<Rightarrow> u32 list" where
  "uint32s_of_bytes (b0 # b1 # b2 # b3 # bs) = uint32_of_bytes [b0, b1, b2, b3] # uint32s_of_bytes bs"
| "uint32s_of_bytes bs = []"

fun read_docs :: "nat \<Rightarrow> byte list \<Rightarrow> str list \<Rightarrow> load_fault + (str list \<times> byte list)" where
  "read_docs 0 inp ds = Inr (ds, inp)"
| "read_docs (Suc n) inp ds =
     (case read_string inp of Inl e \<Rightarrow> Inl e | Inr (d, inp') \<Rightarrow> read_docs n inp' (ds @ [d]))"

text \<open>\<open>emplace\<close> leaves the map as it is when the key is already there.\<close>

definition emplace :: "(str \<rightharpoonup> u32 list) \<Rightarrow> str \<Rightarrow> u32 list \<Rightarrow> (str \<rightharpoonup> u32 list)" where
  "emplace m k v = (if m k = None then m(k \<mapsto> v) else m)"

fun read_postings ::
  "nat \<Rightarrow> byte list \<Rightarrow> (str \<rightharpoonup> u32 list) \<Rightarrow> load_fault + ((str \<rightharpoonup> u32 list) \<times> byte list)" where
  "read_postings 0 inp m = Inr (m, inp)"
| "read_postings (Suc n) inp m =
     (case read_string inp of
        Inl e \<Rightarrow> Inl e
      | Inr (term, inp1) \<Rightarrow>
          (case read_uint32 inp1 of
             Inl e \<Rightarrow> Inl e
           | Inr (len, inp2) \<Rightarrow>
               (case read_bytes (unat len * 4) inp2 of
                  Inl e \<Rightarrow> Inl e
                | Inr (bs, inp3) \<Rightarrow> read_postings n inp3 (emplace m term (uint32s_of_bytes bs)))))"

definition load_index :: "byte list \<Rightarrow> load_fault + index" where
  "load_index inp =
     (case read_bytes 5 inp of
        Inl e \<Rightarrow> Inl e
      | Inr (magic, inp1) \<Rightarrow>
          if magic \<noteq> bytes_of ''BIDX1'' then Inl Bad_Index_File
          else (case read_uint32 inp1 of
             Inl e \<Rightarrow> Inl e
           | Inr (doc_count, inp2) \<Rightarrow>
               (case read_uint32 inp2 of
                  Inl e \<Rightarrow> Inl e
                | Inr (term_count, inp3) \<Rightarrow>
                    (case read_docs (unat doc_count) inp3 [] of
                       Inl e \<Rightarrow> Inl e
                     | Inr (ds, inp4) \<Rightarrow>
                         (case read_postings (unat term_count) inp4 Map.empty of
                            Inl e \<Rightarrow> Inl e
                          | Inr (m, inp5) \<Rightarrow> Inr \<lparr>docs = ds, postings = m\<rparr>)))))"

subsection \<open>Sorted-set operations\<close>

text \<open>
  The two-pointer loops, on the parts \<open>a[i..]\<close> and \<open>b[j..]\<close> still to be read and the
  output vector \<open>out\<close> built by \<open>push_back\<close>.
\<close>

fun set_and_loop :: "u32 list \<Rightarrow> u32 list \<Rightarrow> u32 list \<Rightarrow> u32 list" where
  "set_and_loop (x # a) (y # b) out =
     (if x = y then set_and_loop a b (out @ [x])
      else if x < y then set_and_loop a (y # b) out
      else set_and_loop (x # a) b out)"
| "set_and_loop a b out = out"

definition set_and :: "u32 list \<Rightarrow> u32 list \<Rightarrow> u32 list" where
  "set_and a b = set_and_loop a b []"

text \<open>\<open>if (out.empty() || out.back() != v) out.push_back(v)\<close>\<close>

definition push_new :: "u32 list \<Rightarrow> u32 \<Rightarrow> u32 list" where
  "push_new out v = (if out = [] \<or> last out \<noteq> v then out @ [v] else out)"

fun set_or_loop :: "u32 list \<Rightarrow> u32 list \<Rightarrow> u32 list \<Rightarrow> u32 list" where
  "set_or_loop [] [] out = out"
| "set_or_loop (x # a) [] out = set_or_loop a [] (push_new out x)"
| "set_or_loop [] (y # b) out = set_or_loop [] b (push_new out y)"
| "set_or_loop (x # a) (y # b) out =
     (if x \<le> y then set_or_loop a (y # b) (push_new out x)
      else set_or_loop (x # a) b (push_new out y))"

definition set_or :: "u32 list \<Rightarrow> u32 list \<Rightarrow> u32 list" where
  "set_or a b = set_or_loop a b []"

fun set_not_loop :: "u32 list \<Rightarrow> u32 list \<Rightarrow> u32 list \<Rightarrow> u32 list" where
  "set_not_loop [] b out = out"
| "set_not_loop (u # universe) [] out = out @ (u # universe)"
| "set_not_loop (u # universe) (y # b) out =
     (if u = y then set_not_loop universe b out
      else if u < y then set_not_loop universe (y # b) (out @ [u])
      else set_not_loop (u # universe) b out)"

definition set_not :: "u32 list \<Rightarrow> u32 list \<Rightarrow> u32 list" where
  "set_not universe b = set_not_loop universe b []"

subsection \<open>Queries\<close>

datatype Op = Op_TERM | Op_AND | Op_OR | Op_NOT

record token =
  tok_type :: Op
  tok_term :: str

definition mk_token :: "Op \<Rightarrow> str \<Rightarrow> token" where
  "mk_token t s = \<lparr>tok_type = t, tok_term = s\<rparr>"

definition searcher_tokenizer :: tokenizer where
  "searcher_tokenizer = Tokenizer\<lparr>lowercase := True, min_token_length := 2\<rparr>"

definition word_token :: "bool \<Rightarrow> str \<Rightarrow> token" where
  "word_token use_stem w =
     (if w = bytes_of ''and'' then mk_token Op_AND []
      else if w = bytes_of ''or'' then mk_token Op_OR []
      else if w = bytes_of ''not'' then mk_token Op_NOT []
      else mk_token Op_TERM (if use_stem then stem_token w else w))"

definition parse_query :: "str \<Rightarrow> tokenizer \<Rightarrow> bool \<Rightarrow> token list option" where
  "parse_query raw tk use_stem =
     do { words \<leftarrow> tokenize tk raw; Some (map (word_token use_stem) words) }"

definition precedence :: "Op \<Rightarrow> int" where
  "precedence op = (if op = Op_NOT then 2 else if op = Op_AND then 1 else 0)"

text \<open>
  \<open>to_postfix\<close>: the operator stack \<open>ops\<close> is a list with its top first. \<open>pop_ops\<close> is
  the inner \<open>while\<close> loop.
\<close>

fun pop_ops :: "Op \<Rightarrow> Op list \<Rightarrow> token list \<Rightarrow> Op list \<times> token list" where
  "pop_ops t [] output = ([], output)"
| "pop_ops t (op # ops) output =
     (if precedence op \<ge> precedence t then pop_ops t ops (output @ [mk_token op []])
      else (op # ops, output))"

fun to_postfix_loop :: "token list \<Rightarrow> token list \<Rightarrow> Op list \<Rightarrow> token list" where
  "to_postfix_loop [] output ops = output @ map (\<lambda>op. mk_token op []) ops"
| "to_postfix_loop (t # infix) output ops =
     (if tok_type t = Op_TERM then to_postfix_loop infix (output @ [t]) ops
      else case pop_ops (tok_type t) ops output of
        (ops', output') \<Rightarrow> to_postfix_loop infix output' (tok_type t # ops'))"

definition to_postfix :: "token list \<Rightarrow> token list" where
  "to_postfix infix = to_postfix_loop infix [] []"

definition postings_for :: "index \<Rightarrow> str \<Rightarrow> u32 list" where
  "postings_for idx term = (case postings idx term of None \<Rightarrow> [] | Some plist \<Rightarrow> plist)"

text \<open>
  \<open>evaluate\<close>. The source calls \<open>stack.back()\<close> and \<open>stack.pop_back()\<close> with no test of
  \<open>stack.empty()\<close>: on an empty vector that is undefined behaviour, not an error the
  program reports, and the model marks it \<open>Pop_Of_Empty_Stack\<close>. The loop that fills
  \<open>universe\<close> counts with a \<open>uint32_t\<close>, which never reaches a size of \<open>2^32\<close> or more;
  then the loop does not end (\<open>Universe_Loop_Runs_Forever\<close>). The stack is a list with
  its top first.
\<close>

datatype eval_fault = Pop_Of_Empty_Stack | Universe_Loop_Runs_Forever

fun evaluate_loop ::
  "index \<Rightarrow> u32 list \<Rightarrow> token list \<Rightarrow> u32 list list \<Rightarrow> eval_fault + u32 list list" where
  "evaluate_loop idx universe [] stack = Inr stack"
| "evaluate_loop idx universe (t # postfix) stack =
     (if tok_type t = Op_TERM
      then evaluate_loop idx universe postfix (postings_for idx (tok_term t) # stack)
      else if tok_type t = Op_NOT then
        (case stack of
           [] \<Rightarrow> Inl Pop_Of_Empty_Stack
         | a # stack' \<Rightarrow> evaluate_loop idx universe postfix (set_not universe a # stack'))
      else
        (case stack of
           b # a # stack' \<Rightarrow>
             evaluate_loop idx universe postfix
               ((if tok_type t = Op_AND then set_and a b else set_or a b) # stack')
         | _ \<Rightarrow> Inl Pop_Of_Empty_Stack))"

definition evaluate :: "index \<Rightarrow> token list \<Rightarrow> eval_fault + u32 list" where
  "evaluate idx postfix =
     (if 2 ^ 32 \<le> length (docs idx) then Inl Universe_Loop_Runs_Forever
      else case evaluate_loop idx (map of_nat [0 ..< length (docs idx)]) postfix [] of
        Inl e \<Rightarrow> Inl e
      | Inr stack \<Rightarrow> Inr (case stack of [] \<Rightarrow> [] | r # stack' \<Rightarrow> r))"

text \<open>One round of the query loop of \<open>main\<close>, up to the result of \<open>evaluate\<close>.\<close>

definition run_query :: "index \<Rightarrow> bool \<Rightarrow> str \<Rightarrow> (eval_fault + u32 list) option" where
  "run_query idx use_stem query =
     do { infix \<leftarrow> parse_query query searcher_tokenizer use_stem;
          Some (evaluate idx (to_postfix infix)) }"

section \<open>Notions of the specification\<close>

text \<open>
  A list of document ids of an index with \<open>n\<close> documents: strictly increasing (hence
  without duplicates), every id below \<open>n\<close>.
\<close>

definition doc_ids :: "nat \<Rightarrow> u32 list \<Rightarrow> bool" where
  "doc_ids n xs = (sorted_wrt (<) xs \<and> list_all (\<lambda>d. unat d < n) xs)"

text \<open>
  An index the searcher can hold: \<open>load_index\<close> reads the number of documents from a
  32-bit field, and every posting list is a list of document ids of the index.
\<close>

definition index_ok :: "index \<Rightarrow> bool" where
  "index_ok idx =
     (length (docs idx) < 2 ^ 32 \<and>
      (\<forall>t plist. postings idx t = Some plist \<longrightarrow> doc_ids (length (docs idx)) plist))"

text \<open>
  A well-formed postfix program, run on a stack of \<open>depth\<close> operands: every operator
  finds the operands it pops.
\<close>

fun postfix_ok :: "nat \<Rightarrow> token list \<Rightarrow> bool" where
  "postfix_ok depth [] = True"
| "postfix_ok depth (t # postfix) =
     (if tok_type t = Op_TERM then postfix_ok (depth + 1) postfix
      else if tok_type t = Op_NOT then 1 \<le> depth \<and> postfix_ok depth postfix
      else 2 \<le> depth \<and> postfix_ok (depth - 1) postfix)"

text \<open>
  A corpus line that yields a record: both fields can be extracted.
\<close>

definition parsed_record :: "str \<Rightarrow> (str \<times> str) option" where
  "parsed_record line =
     (case extract_field line (bytes_of ''id'') of
        None \<Rightarrow> None
      | Some ident \<Rightarrow>
          (case extract_field line (bytes_of ''text'') of
             None \<Rightarrow> None
           | Some txt \<Rightarrow> Some (ident, txt)))"

text \<open>
  The invariant of the build loop: the counter \<open>doc_id\<close> is the number of documents
  read so far (as a \<open>uint32_t\<close>), and every posting holds ids given out so far.
\<close>

definition build_inv :: "index \<times> u32 \<Rightarrow> bool" where
  "build_inv st =
     (snd st = of_nat (length (docs (fst st))) \<and>
      (\<forall>t v. postings (fst st) t = Some v \<longrightarrow> set v \<subseteq> of_nat ` {..< length (docs (fst st))}))"

text \<open>
  The sizes the file format stores in 32-bit fields: the number of documents, the number
  of terms (the length of the traversal \<open>ks\<close>), the length of every external id and of
  every term.
\<close>

definition fits_uint32 :: "index \<Rightarrow> str list \<Rightarrow> bool" where
  "fits_uint32 idx ks =
     (length (docs idx) < 2 ^ 32 \<and> list_all (\<lambda>d. length d < 2 ^ 32) (docs idx) \<and>
      length ks < 2 ^ 32 \<and> list_all (\<lambda>k. length k < 2 ^ 32) ks)"

text \<open>
  The lowercase letter of a Cyrillic capital letter, by Unicode: the capitals U+0410 to
  U+042F have their lowercase letters \<open>0x20\<close> code points higher, at U+0430 to U+044F.
  A code point from U+0080 to U+07FF is two bytes in UTF-8.
\<close>

definition utf8_decode2 :: "byte \<Rightarrow> byte \<Rightarrow> nat" where
  "utf8_decode2 lead trail = (unat lead mod 32) * 64 + unat trail mod 64"

definition utf8_encode2 :: "nat \<Rightarrow> str" where
  "utf8_encode2 cp = [of_nat (0xC0 + cp div 64), of_nat (0x80 + cp mod 64)]"

definition cyrillic_lowercase :: "byte \<Rightarrow> byte \<Rightarrow> str" where
  "cyrillic_lowercase lead trail = utf8_encode2 (utf8_decode2 lead trail + 0x20)"

section \<open>Example inputs\<close>

text \<open>
  The end-to-end scenario of the specification: the corpus of the documents \<open>d1\<close>
  (``Cats run fast'') and \<open>d2\<close> (``Dogs run slow''), the index built from it with
  stemming, and one order in which the terms of that index may be traversed.
\<close>

definition scenario_corpus :: "str list" where
  \<open>scenario_corpus =
     [bytes_of ''{"id":"d1","text":"Cats run fast"}'',
      bytes_of ''{"id":"d2","text":"Dogs run slow"}'']\<close>

definition scenario_index :: index where
  "scenario_index =
     \<lparr>docs = [bytes_of ''d1'', bytes_of ''d2''],
      postings = [bytes_of ''cat'' \<mapsto> [0], bytes_of ''run'' \<mapsto> [0, 1],
                  bytes_of ''fast'' \<mapsto> [0], bytes_of ''dog'' \<mapsto> [1],
                  bytes_of ''slow'' \<mapsto> [1]]\<rparr>"

definition scenario_terms :: "str list" where
  "scenario_terms = map bytes_of [''slow'', ''run'', ''cat'', ''fast'', ''dog'']"

text \<open>
  A corpus line whose external id is \<open>2^32\<close> bytes long (the letter \<open>a\<close> repeated), and
  the index built from it.
\<close>

definition big_id :: str where
  "big_id = replicate (2 ^ 32) 0x61"

definition big_line :: str where
  \<open>big_line = bytes_of ''{"text":"","id":"'' @ big_id @ bytes_of ''"}''\<close>

definition big_index :: index where
  "big_index = \<lparr>docs = [big_id], postings = Map.empty\<rparr>"

section \<open>The tokenizer returns on every byte string\<close>

text \<open>
  Every loop of the tokenizer is a total function of the model, and none of its reads
  leaves the string: no function below ever yields \<open>None\<close>.
\<close>

lemma is_token_char_total: "\<exists>r. is_token_char s pos kd ka = Some r"
  by (auto simp: is_token_char_def byte_at_def)

lemma utf8_char_count_loop_total: "\<exists>n. utf8_char_count_loop s i count = Some n"
proof (induction "length s - i" arbitrary: i count rule: less_induct)
  case less
  have step: "\<exists>n. utf8_char_count_loop s j c = Some n" if "i < j" "i < length s" for j c
    using less [of j c] that by simp
  show ?case
    by (subst utf8_char_count_loop.simps) (auto simp: byte_at_def step)
qed

lemma to_lower_loop_total: "\<exists>r. to_lower_loop s i result = Some r"
proof (induction "length s - i" arbitrary: i result rule: less_induct)
  case less
  have step: "\<exists>r. to_lower_loop s j res = Some r" if "i < j" "i < length s" for j res
    using less [of j res] that by simp
  show ?case
    by (subst to_lower_loop.simps) (auto simp: byte_at_def step)
qed

lemma has_letter_loop_total: "\<exists>r. has_letter_loop s i = Some r"
proof (induction "length s - i" arbitrary: i rule: less_induct)
  case less
  have step: "\<exists>r. has_letter_loop s j = Some r" if "i < j" "i < length s" for j
    using less [of j] that by simp
  show ?case
    by (subst has_letter_loop.simps) (auto simp: byte_at_def step)
qed

lemma is_valid_token_total: "\<exists>r. is_valid_token tk token = Some r"
proof -
  obtain n where "utf8_char_count token = Some n"
    unfolding utf8_char_count_def using utf8_char_count_loop_total by blast
  moreover obtain b where "has_letter_loop token 0 = Some b"
    using has_letter_loop_total by blast
  ultimately show ?thesis by (auto simp: is_valid_token_def)
qed

lemma skip_separators_total: "\<exists>j. skip_separators tk s i = Some j"
proof (induction "length s - i" arbitrary: i rule: less_induct)
  case less
  have step: "\<exists>r. skip_separators tk s j = Some r" if "i < j" "i < length s" for j
    using less [of j] that by simp
  obtain r where "is_token_char s i (keep_dashes tk) (keep_apostrophes tk) = Some r"
    using is_token_char_total by blast
  then show ?case
    by (subst skip_separators.simps) (auto simp: step)
qed

lemma scan_token_total: "\<exists>j. scan_token tk s i = Some j"
proof (induction "length s - i" arbitrary: i rule: less_induct)
  case less
  have step: "\<exists>r. scan_token tk s j = Some r" if "i < j" "i < length s" for j
    using less [of j] that by simp
  obtain r where r: "is_token_char s i (keep_dashes tk) (keep_apostrophes tk) = Some r"
    using is_token_char_total by blast
  have "0 < snd r" if "fst r"
  proof -
    from r that have "is_token_char s i (keep_dashes tk) (keep_apostrophes tk) = Some (True, snd r)"
      by (cases r) simp
    from is_token_char_advance [OF this] show ?thesis by simp
  qed
  with r show ?case
    by (subst scan_token.simps) (auto simp: step)
qed

lemma tokenize_loop_total: "\<exists>ts. tokenize_loop tk s i tokens = Some ts"
proof (induction "length s - i" arbitrary: i tokens rule: less_induct)
  case less
  have step: "\<exists>r. tokenize_loop tk s j ts = Some r" if "i < j" "i < length s" for j ts
    using less [of j ts] that by simp
  show ?case
  proof (cases "i < length s")
    case False
    then show ?thesis by (subst tokenize_loop.simps) simp
  next
    case True
    obtain j where j: "skip_separators tk s i = Some j"
      using skip_separators_total by blast
    from skip_separators_result [OF j] have "i \<le> j"
      and tc: "j < length s \<Longrightarrow>
        \<exists>advance. is_token_char s j (keep_dashes tk) (keep_apostrophes tk) = Some (True, advance)"
      by blast+
    show ?thesis
    proof (cases "j < length s")
      case False
      with True have "i < j" by simp
      from step [OF this True, of tokens] j True False show ?thesis
        by (subst tokenize_loop.simps) simp
    next
      case jlt: True
      obtain k where k: "scan_token tk s j = Some k"
        using scan_token_total by blast
      from tc [OF jlt] obtain advance
        where "is_token_char s j (keep_dashes tk) (keep_apostrophes tk) = Some (True, advance)" ..
      from scan_token_progress [OF k this jlt] \<open>i \<le> j\<close> have "i < k" by simp
      obtain raw where raw: "substr s j (k - j) = Some raw"
        using jlt by (simp add: substr_def)
      have "\<exists>token. (if lowercase tk then to_lower (trim_back (trim_front raw))
                        else Some (trim_back (trim_front raw))) = Some token"
        using to_lower_loop_total [of "trim_back (trim_front raw)" 0 "[]"]
        by (simp add: to_lower_def)
      then obtain token where token: "(if lowercase tk then to_lower (trim_back (trim_front raw))
                        else Some (trim_back (trim_front raw))) = Some token" ..
      obtain valid where valid: "is_valid_token tk token = Some valid"
        using is_valid_token_total by blast
      from step [OF \<open>i < k\<close> True] obtain ts
        where "tokenize_loop tk s k (if valid then tokens @ [token] else tokens) = Some ts"
        by blast
      with True j jlt k raw token valid show ?thesis
        by (subst tokenize_loop.simps) simp
    qed
  qed
qed

lemma is_token_char_in_range:
  assumes "pos < length s"
  shows "\<exists>b advance. is_token_char s pos kd ka = Some (b, advance) \<and> 1 \<le> advance
           \<and> pos + advance \<le> length s"
  using assms by (auto simp: is_token_char_def byte_at_def)

text \<open>
  C9: \<open>tokenize\<close> returns a token list on every byte string, well-formed UTF-8 or not,
  for every configuration: the model's loops terminate (their termination proofs rest on
  \<open>is_token_char\<close> answering \<open>true\<close> only with an advance of at least one byte) and no
  checked read fails. At every position of the text \<open>is_token_char\<close> sets an advance of
  one or two bytes that stays inside the text.
\<close>

theorem tokenize_total_in_bounds:
  "(\<exists>tokens. tokenize tk text = Some tokens) \<and>
   list_all (\<lambda>pos. \<exists>b advance.
       is_token_char text pos (keep_dashes tk) (keep_apostrophes tk) = Some (b, advance)
       \<and> 1 \<le> advance \<and> pos + advance \<le> length text) [0 ..< length text]"
proof
  show "\<exists>tokens. tokenize tk text = Some tokens"
    unfolding tokenize_def by (rule tokenize_loop_total)
next
  show "list_all (\<lambda>pos. \<exists>b advance.
       is_token_char text pos (keep_dashes tk) (keep_apostrophes tk) = Some (b, advance)
       \<and> 1 \<le> advance \<and> pos + advance \<le> length text) [0 ..< length text]"
    unfolding list_all_iff using is_token_char_in_range by simp
qed

section \<open>Running the tokenizer on a given string\<close>

text \<open>
  The loops unfold only where their test is decided, so that the simplifier runs them
  on a given string and leaves them alone elsewhere.
\<close>

lemma utf8_char_count_loop_step:
  "i < length s \<Longrightarrow> utf8_char_count_loop s i count =
     utf8_char_count_loop s
       (if s ! i < 0x80 then i + 1
        else if s ! i AND 0xE0 = 0xC0 then i + 2
        else if s ! i AND 0xF0 = 0xE0 then i + 3
        else if s ! i AND 0xF8 = 0xF0 then i + 4
        else i + 1)
       (count + 1)"
  by (subst utf8_char_count_loop.simps) (simp add: byte_at_def)

lemma utf8_char_count_loop_done:
  "\<not> i < length s \<Longrightarrow> utf8_char_count_loop s i count = Some count"
  by (subst utf8_char_count_loop.simps) simp

lemma to_lower_loop_step:
  "i < length s \<Longrightarrow> to_lower_loop s i result =
     (if 0x41 \<le> s ! i \<and> s ! i \<le> 0x5A then to_lower_loop s (i + 1) (result @ [s ! i + 32])
      else if i + 1 < length s \<and> s ! i = 0xD0 \<and> 0x90 \<le> s ! (i + 1) \<and> s ! (i + 1) \<le> 0xAF
      then to_lower_loop s (i + 2) (result @ [0xD0, s ! (i + 1) + 0x20])
      else if i + 1 < length s \<and> s ! i = 0xD0 \<and> s ! (i + 1) = 0x81
      then to_lower_loop s (i + 2) (result @ [0xD1, 0x91])
      else to_lower_loop s (i + 1) (result @ [s ! i]))"
  by (subst to_lower_loop.simps) (auto simp: byte_at_def)

lemma to_lower_loop_done: "\<not> i < length s \<Longrightarrow> to_lower_loop s i result = Some result"
  by (subst to_lower_loop.simps) simp

lemma has_letter_loop_step:
  "i < length s \<Longrightarrow> has_letter_loop s i =
     (if is_ascii_letter (s ! i) \<or> is_digit (s ! i) then Some True
      else if i + 1 < length s \<and> is_cyrillic_start (s ! i) (s ! (i + 1)) then Some True
      else has_letter_loop s (i + 1))"
  by (subst has_letter_loop.simps) (auto simp: byte_at_def)

lemma has_letter_loop_done: "\<not> i < length s \<Longrightarrow> has_letter_loop s i = Some False"
  by (subst has_letter_loop.simps) simp

lemma trim_back_step:
  "token \<noteq> [] \<Longrightarrow> last token = 0x2D \<or> last token = 0x27 \<Longrightarrow>
     trim_back token = trim_back (butlast token)"
  by (subst trim_back.simps) simp

lemma trim_back_done:
  "token = [] \<or> (last token \<noteq> 0x2D \<and> last token \<noteq> 0x27) \<Longrightarrow> trim_back token = token"
  by (subst trim_back.simps) auto

lemma is_token_char_eval:
  "pos < length s \<Longrightarrow> is_token_char s pos kd ka =
     Some (if is_ascii_letter (s ! pos) \<or> is_digit (s ! pos) then (True, 1)
           else if pos + 1 < length s \<and> is_cyrillic_start (s ! pos) (s ! (pos + 1)) then (True, 2)
           else if kd \<and> s ! pos = 0x2D then (True, 1)
           else if ka \<and> s ! pos = 0x27 then (True, 1)
           else (False, 1))"
  by (auto simp: is_token_char_def byte_at_def)

lemma skip_separators_step:
  "i < length s \<Longrightarrow> skip_separators tk s i =
     do { r \<leftarrow> is_token_char s i (keep_dashes tk) (keep_apostrophes tk);
          if \<not> fst r then skip_separators tk s (i + 1) else Some i }"
  by (subst skip_separators.simps) simp

lemma skip_separators_done: "\<not> i < length s \<Longrightarrow> skip_separators tk s i = Some i"
  by (subst skip_separators.simps) simp

lemma scan_token_step:
  "i < length s \<Longrightarrow> scan_token tk s i =
     do { r \<leftarrow> is_token_char s i (keep_dashes tk) (keep_apostrophes tk);
          if fst r then scan_token tk s (i + snd r) else Some i }"
  by (subst scan_token.simps) simp

lemma scan_token_done: "\<not> i < length s \<Longrightarrow> scan_token tk s i = Some i"
  by (subst scan_token.simps) simp

lemma tokenize_loop_step:
  "i < length s \<Longrightarrow> tokenize_loop tk s i tokens =
     do {
       token_start \<leftarrow> skip_separators tk s i;
       if token_start < length s then
         do {
           i' \<leftarrow> scan_token tk s token_start;
           raw \<leftarrow> substr s token_start (i' - token_start);
           token \<leftarrow> (if lowercase tk then to_lower (trim_back (trim_front raw))
                     else Some (trim_back (trim_front raw)));
           valid \<leftarrow> is_valid_token tk token;
           tokenize_loop tk s i' (if valid then tokens @ [token] else tokens)
         }
       else tokenize_loop tk s token_start tokens
     }"
  by (subst tokenize_loop.simps) simp

lemma tokenize_loop_done: "\<not> i < length s \<Longrightarrow> tokenize_loop tk s i tokens = Some tokens"
  by (subst tokenize_loop.simps) simp

lemmas tokenizer_eval =
  tokenize_def tokenize_loop_step tokenize_loop_done substr_def
  skip_separators_step skip_separators_done scan_token_step scan_token_done
  is_token_char_eval to_lower_def to_lower_loop_step to_lower_loop_done
  is_valid_token_def utf8_char_count_def utf8_char_count_loop_step utf8_char_count_loop_done
  has_letter_loop_step has_letter_loop_done trim_back_step trim_back_done
  is_ascii_letter_def is_digit_def is_cyrillic_start_def Tokenizer_def bytes_of_def


lemmas stemmer_eval = stem_token_def has_cyrillic_def rfind_def en_def ru_def

lemmas query_eval =
  run_query_def parse_query_def searcher_tokenizer_def word_token_def mk_token_def
  to_postfix_def precedence_def evaluate_def postings_for_def set_and_def set_or_def
  set_not_def push_new_def

lemmas builder_eval =
  build_index_def process_line_def extract_field_def find_from_def skip_while_def isspace_def
  decode_json_string_def unescape_def builder_tokenizer_def add_postings_def finalize_def

section \<open>Lowercasing\<close>

text \<open>
  \<open>to_lower\<close> on single letters: ASCII and the capitals U+0410 to U+041F (trail bytes
  \<open>0x90\<close> to \<open>0x9F\<close>) come out as their lowercase letters, and so does U+0401.
\<close>

lemma to_lower_examples:
  "to_lower (bytes_of ''Cats-Run 42'') = Some (bytes_of ''cats-run 42'')"
  "to_lower [0xD0, 0x90] = Some (cyrillic_lowercase 0xD0 0x90)"
  "to_lower [0xD0, 0x9F] = Some (cyrillic_lowercase 0xD0 0x9F)"
  "to_lower [0xD0, 0x81] = Some [0xD1, 0x91]"
  "cyrillic_lowercase 0xD0 0x9F = [0xD0, 0xBF]"
  by (simp_all add: tokenizer_eval cyrillic_lowercase_def utf8_decode2_def utf8_encode2_def)

text \<open>
  C3: \<open>to_lower\<close> maps a Cyrillic capital with lead byte \<open>0xD0\<close> and trail byte in
  \<open>0x90..0xAF\<close> by adding \<open>0x20\<close> to the trail byte and keeping the lead byte. For the
  trail bytes \<open>0xA0..0xAF\<close> (U+0420 to U+042F) that is not the lowercase letter, which has
  lead byte \<open>0xD1\<close>: the capital U+0420 (\<open>0xD0 0xA0\<close>) becomes \<open>0xD0 0xC0\<close>, not a
  UTF-8 sequence, where its lowercase letter U+0440 is \<open>0xD1 0x80\<close>.
\<close>

theorem to_lower_capital_er:
  "to_lower [0xD0, 0xA0] = Some [0xD0, 0xC0] \<and> cyrillic_lowercase 0xD0 0xA0 = [0xD1, 0x80]"
  by (simp add: tokenizer_eval cyrillic_lowercase_def utf8_decode2_def utf8_encode2_def)

text \<open>The same for every capital from U+0420 to U+042F.\<close>

lemma to_lower_capitals_er_to_ya:
  "list_all (\<lambda>trail. to_lower [0xD0, trail] = Some [0xD0, trail + 0x20] \<and>
                      cyrillic_lowercase 0xD0 trail = [0xD1, trail - 0x20])
     [0xA0, 0xA1, 0xA2, 0xA3, 0xA4, 0xA5, 0xA6, 0xA7, 0xA8, 0xA9, 0xAA, 0xAB, 0xAC, 0xAD,
      0xAE, 0xAF]"
  by (simp add: tokenizer_eval cyrillic_lowercase_def utf8_decode2_def utf8_encode2_def)

section \<open>Stemming\<close>

lemma rfind_suffix:
  assumes "length suf \<le> length word"
  shows "rfind word suf = Some (length word - length suf) \<longleftrightarrow> suffix suf word"
proof -
  let ?n = "length word - length suf"
  let ?P = "\<lambda>p. take (length suf) (drop p word) = suf"
  have r: "rfind word suf = (if ?P ?n then Some ?n else find ?P (rev [0 ..< ?n]))"
    using assms by (simp add: rfind_def)
  have "find ?P (rev [0 ..< ?n]) \<noteq> Some ?n"
  proof
    assume "find ?P (rev [0 ..< ?n]) = Some ?n"
    then obtain i where "i < length (rev [0 ..< ?n])" and "?n = rev [0 ..< ?n] ! i"
      unfolding find_Some_iff by blast
    then have "?n \<in> set (rev [0 ..< ?n])" by (metis nth_mem)
    then show False by simp
  qed
  with r have "rfind word suf = Some ?n \<longleftrightarrow> ?P ?n" by simp
  also have "?P ?n \<longleftrightarrow> drop ?n word = suf" using assms by simp
  also have "\<dots> \<longleftrightarrow> suffix suf word"
    by (auto simp: suffix_def) (metis append_take_drop_id)
  finally show ?thesis .
qed

lemma strip_suffix_find:
  "strip_suffix word sufs =
     (case find (\<lambda>suf. length suf + 1 < length word \<and> suffix suf word) sufs of
        None \<Rightarrow> word
      | Some suf \<Rightarrow> take (length word - length suf) word)"
  by (induction sufs) (auto simp: rfind_suffix)

text \<open>
  C7 (amended): \<open>stem_token\<close> returns a term of at most two bytes unchanged; otherwise
  it strips the first suffix of the table, in its declared order (the Russian table when a
  byte of the term is \<open>0xD0\<close> or more, the English table otherwise), that ends the term
  and leaves more than one byte of it, and returns the term unchanged when there is none.
  In particular \<open>stem("a") = "a"\<close> and \<open>stem("running") = "runn"\<close>.
\<close>

theorem stem_token_first_suffix:
  "stem_token token =
     (if length token \<le> 2 then token
      else case find (\<lambda>suf. length suf + 1 < length token \<and> suffix suf token)
                  (if has_cyrillic token then ru else en) of
        None \<Rightarrow> token
      | Some suf \<Rightarrow> take (length token - length suf) token) \<and>
   stem_token (bytes_of ''a'') = bytes_of ''a'' \<and>
   stem_token (bytes_of ''running'') = bytes_of ''runn''"
proof (intro conjI)
  show "stem_token token =
     (if length token \<le> 2 then token
      else case find (\<lambda>suf. length suf + 1 < length token \<and> suffix suf token)
                  (if has_cyrillic token then ru else en) of
        None \<Rightarrow> token
      | Some suf \<Rightarrow> take (length token - length suf) token)"
    by (simp add: stem_token_def strip_suffix_find)
  show "stem_token (bytes_of ''a'') = bytes_of ''a''"
    by (simp add: stem_token_def bytes_of_def)
  show "stem_token (bytes_of ''running'') = bytes_of ''runn''"
    by (simp add: stemmer_eval bytes_of_def)
qed

text \<open>
  C7 as stated, with a remainder of more than one character, fails on a Cyrillic term:
  the three letters U+043C U+043E U+0439 (six bytes) lose the suffix U+043E U+0439, the
  fifth of the Russian table, and keep the single letter U+043C, which \<open>utf8_char_count\<close>
  counts as one character.
\<close>

theorem stem_token_leaves_one_letter:
  "stem_token [0xD0, 0xBC, 0xD0, 0xBE, 0xD0, 0xB9] = [0xD0, 0xBC] \<and>
   utf8_char_count [0xD0, 0xBC] = Some 1"
  by (simp add: stemmer_eval tokenizer_eval)

section \<open>The sorted-set operations\<close>

text \<open>
  What the three loops return, as sets, with no assumption on their inputs; then that
  they return strictly increasing lists on sorted inputs.
\<close>

lemma set_and_loop_subset: "set (set_and_loop a b out) \<subseteq> set out \<union> (set a \<inter> set b)"
  by (induction a b out rule: set_and_loop.induct) auto

lemma set_push_new: "set (push_new out v) = insert v (set out)"
  by (auto simp: push_new_def)

lemma set_or_loop_set: "set (set_or_loop a b out) = set out \<union> set a \<union> set b"
  by (induction a b out rule: set_or_loop.induct) (auto simp: set_push_new)

lemma set_not_loop_subset: "set (set_not_loop u b out) \<subseteq> set out \<union> set u"
  by (induction u b out rule: set_not_loop.induct) auto

lemma strict_snoc:
  "sorted_wrt (<) (out @ [v :: u32]) \<longleftrightarrow> sorted_wrt (<) out \<and> (\<forall>x\<in>set out. x < v)"
  by (auto simp: sorted_wrt_append)

lemma set_and_loop_strict:
  assumes "sorted_wrt (<) a" "sorted_wrt (<) out" "\<forall>x\<in>set out. \<forall>y\<in>set a. x < y"
  shows "sorted_wrt (<) (set_and_loop a b out)"
  using assms
  by (induction a b out rule: set_and_loop.induct) (auto simp: strict_snoc)

lemma set_not_loop_strict:
  assumes "sorted_wrt (<) u" "sorted_wrt (<) out" "\<forall>x\<in>set out. \<forall>y\<in>set u. x < y"
  shows "sorted_wrt (<) (set_not_loop u b out)"
  using assms
  by (induction u b out rule: set_not_loop.induct) (auto simp: strict_snoc sorted_wrt_append)

lemma strict_le_last:
  assumes "sorted_wrt (<) (out :: u32 list)" "x \<in> set out"
  shows "x \<le> last out"
  using assms by (induction out) (auto simp: less_imp_le)

lemma push_new_strict:
  assumes "sorted_wrt (<) out" "\<forall>x\<in>set out. x \<le> v"
  shows "sorted_wrt (<) (push_new out v)"
proof (cases "out = [] \<or> last out \<noteq> v")
  case False
  with assms show ?thesis by (simp add: push_new_def)
next
  case True
  have "x < v" if "x \<in> set out" for x
  proof -
    from that have ne: "out \<noteq> []" by auto
    with True have "last out \<noteq> v" by simp
    moreover from assms(2) ne have "last out \<le> v" by simp
    moreover from strict_le_last [OF assms(1) that] have "x \<le> last out" .
    ultimately show ?thesis by simp
  qed
  with assms(1) True show ?thesis by (auto simp: push_new_def strict_snoc)
qed

lemma set_or_loop_strict:
  assumes "sorted a" "sorted b" "sorted_wrt (<) out"
    "\<forall>x\<in>set out. \<forall>y\<in>set a \<union> set b. x \<le> y"
  shows "sorted_wrt (<) (set_or_loop a b out)"
  using assms
proof (induction a b out rule: set_or_loop.induct)
  case (1 out)
  then show ?case by simp
next
  case (2 x a out)
  have "sorted_wrt (<) (push_new out x)" using 2 by (intro push_new_strict) auto
  moreover have "\<forall>z\<in>set (push_new out x). \<forall>y\<in>set a \<union> set []. z \<le> y"
    using 2 by (auto simp: set_push_new)
  ultimately show ?case using 2 by simp
next
  case (3 y b out)
  have "sorted_wrt (<) (push_new out y)" using 3 by (intro push_new_strict) auto
  moreover have "\<forall>z\<in>set (push_new out y). \<forall>w\<in>set [] \<union> set b. z \<le> w"
    using 3 by (auto simp: set_push_new)
  ultimately show ?case using 3 by simp
next
  case (4 x a y b out)
  show ?case
  proof (cases "x \<le> y")
    case True
    have "sorted_wrt (<) (push_new out x)" using 4 by (intro push_new_strict) auto
    moreover have "\<forall>z\<in>set (push_new out x). \<forall>w\<in>set a \<union> set (y # b). z \<le> w"
      using 4(3-) True by (auto simp: set_push_new)
    ultimately show ?thesis using 4 True by simp
  next
    case False
    have "sorted_wrt (<) (push_new out y)" using 4 by (intro push_new_strict) auto
    moreover have "\<forall>z\<in>set (push_new out y). \<forall>w\<in>set (x # a) \<union> set b. z \<le> w"
      using 4(3-) False by (auto simp: set_push_new)
    ultimately show ?thesis using 4 False by simp
  qed
qed

lemma doc_ids_Nil: "doc_ids n []"
  by (simp add: doc_ids_def)

lemma doc_ids_set_and:
  assumes "doc_ids n a" "doc_ids n b"
  shows "doc_ids n (set_and a b)"
proof -
  have "sorted_wrt (<) (set_and a b)"
    unfolding set_and_def using assms by (intro set_and_loop_strict) (auto simp: doc_ids_def)
  moreover have "set (set_and a b) \<subseteq> set a"
    unfolding set_and_def using set_and_loop_subset [of a b "[]"] by auto
  ultimately show ?thesis using assms(1) by (auto simp: doc_ids_def list_all_iff)
qed

lemma doc_ids_set_or:
  assumes "doc_ids n a" "doc_ids n b"
  shows "doc_ids n (set_or a b)"
proof -
  from assms have "sorted a" "sorted b"
    by (auto simp: doc_ids_def intro: strict_sorted_imp_sorted)
  then have "sorted_wrt (<) (set_or a b)"
    unfolding set_or_def by (intro set_or_loop_strict) auto
  moreover have "set (set_or a b) = set a \<union> set b"
    unfolding set_or_def by (simp add: set_or_loop_set)
  ultimately show ?thesis using assms by (auto simp: doc_ids_def list_all_iff)
qed

lemma doc_ids_set_not:
  assumes "doc_ids n universe"
  shows "doc_ids n (set_not universe b)"
proof -
  have "sorted_wrt (<) (set_not universe b)"
    unfolding set_not_def using assms by (intro set_not_loop_strict) (auto simp: doc_ids_def)
  moreover have "set (set_not universe b) \<subseteq> set universe"
    unfolding set_not_def using set_not_loop_subset [of universe b "[]"] by auto
  ultimately show ?thesis using assms by (auto simp: doc_ids_def list_all_iff)
qed

lemma doc_ids_universe:
  assumes "n < 2 ^ 32"
  shows "doc_ids n (map of_nat [0 ..< n])"
proof -
  have "(of_nat i :: u32) < of_nat j" if "i < j" "j < n" for i j
    using that assms by (simp add: word_less_nat_alt unat_of_nat)
  then have "sorted_wrt (<) (map of_nat [0 ..< n] :: u32 list)"
    by (auto simp: sorted_wrt_map sorted_wrt_iff_nth_less)
  moreover have "unat (of_nat i :: u32) < n" if "i < n" for i
    using that assms by (simp add: unat_of_nat)
  ultimately show ?thesis by (auto simp: doc_ids_def list_all_iff)
qed

lemma doc_ids_postings_for:
  assumes "index_ok idx"
  shows "doc_ids (length (docs idx)) (postings_for idx t)"
  using assms by (auto simp: postings_for_def index_ok_def doc_ids_Nil split: option.splits)

lemma evaluate_loop_ok:
  assumes "index_ok idx" "doc_ids (length (docs idx)) universe"
    "postfix_ok (length stack) postfix" "list_all (doc_ids (length (docs idx))) stack"
  shows "\<exists>stack'. evaluate_loop idx universe postfix stack = Inr stack'
           \<and> list_all (doc_ids (length (docs idx))) stack'"
  using assms(3,4)
proof (induction postfix arbitrary: stack)
  case Nil
  then show ?case by simp
next
  case (Cons t postfix)
  show ?case
  proof (cases "tok_type t")
    case Op_TERM
    with Cons.prems Cons.IH [of "postings_for idx (tok_term t) # stack"]
      doc_ids_postings_for [OF assms(1)]
    show ?thesis by simp
  next
    case Op_NOT
    with Cons.prems obtain a stack0 where st: "stack = a # stack0"
      by (cases stack) auto
    with Op_NOT Cons.prems Cons.IH [of "set_not universe a # stack0"]
      doc_ids_set_not [OF assms(2)]
    show ?thesis by simp
  next
    case Op_AND
    with Cons.prems obtain b a stack0 where st: "stack = b # a # stack0"
      by (cases stack; cases "tl stack") auto
    with Op_AND Cons.prems Cons.IH [of "set_and a b # stack0"] doc_ids_set_and
    show ?thesis by simp
  next
    case Op_OR
    with Cons.prems obtain b a stack0 where st: "stack = b # a # stack0"
      by (cases stack; cases "tl stack") auto
    with Op_OR Cons.prems Cons.IH [of "set_or a b # stack0"] doc_ids_set_or
    show ?thesis by simp
  qed
qed

lemma evaluate_ok:
  assumes "index_ok idx" "postfix_ok 0 postfix"
  shows "\<exists>r. evaluate idx postfix = Inr r \<and> doc_ids (length (docs idx)) r"
proof -
  from assms(1) have n: "length (docs idx) < 2 ^ 32" by (simp add: index_ok_def)
  from evaluate_loop_ok [OF assms(1) doc_ids_universe [OF n], of "[]" postfix] assms(2)
  obtain stack where "evaluate_loop idx (map of_nat [0 ..< length (docs idx)]) postfix [] = Inr stack"
    and "list_all (doc_ids (length (docs idx))) stack"
    by auto
  with n show ?thesis
    by (cases stack) (auto simp: evaluate_def doc_ids_Nil)
qed

text \<open>
  C10: \<open>set_and\<close>, \<open>set_or\<close> and \<open>set_not\<close> return lists of document ids (strictly
  increasing, below the number of documents) when given such lists; so on an index whose
  posting lists are lists of document ids, \<open>evaluate\<close> returns such a list for every
  well-formed postfix program.
\<close>

theorem set_operations_keep_doc_ids:
  "(doc_ids n a \<and> doc_ids n b \<longrightarrow> doc_ids n (set_and a b) \<and> doc_ids n (set_or a b)) \<and>
   (doc_ids n universe \<and> doc_ids n b \<longrightarrow> doc_ids n (set_not universe b)) \<and>
   (index_ok idx \<and> postfix_ok 0 postfix \<longrightarrow>
      (\<exists>r. evaluate idx postfix = Inr r \<and> doc_ids (length (docs idx)) r))"
  using doc_ids_set_and doc_ids_set_or doc_ids_set_not evaluate_ok by blast

lemma scenario_index_ok: "index_ok scenario_index"
  by (auto simp: index_ok_def scenario_index_def doc_ids_def split: if_splits)

text \<open>
  C10 on the scenario: the lists \<open>[0, 1]\<close> and \<open>[1]\<close>, and the query
  \<open>run AND NOT fast\<close>, which finds \<open>d2\<close>.
\<close>

theorem set_operations_keep_doc_ids_witness:
  "doc_ids 2 [0, 1] \<and> doc_ids 2 [1] \<and> index_ok scenario_index \<and>
   postfix_ok 0 (to_postfix [mk_token Op_TERM (bytes_of ''run''), mk_token Op_AND [],
     mk_token Op_NOT [], mk_token Op_TERM (bytes_of ''fast'')]) \<and>
   set_and [0, 1] [1] = [1] \<and> set_or [0, 1] [1] = [0, 1] \<and> set_not [0, 1] [1] = [0] \<and>
   doc_ids 2 (set_and [0, 1] [1]) \<and> doc_ids 2 (set_or [0, 1] [1]) \<and>
   doc_ids 2 (set_not [0, 1] [1]) \<and>
   evaluate scenario_index (to_postfix [mk_token Op_TERM (bytes_of ''run''), mk_token Op_AND [],
     mk_token Op_NOT [], mk_token Op_TERM (bytes_of ''fast'')]) = Inr [1] \<and>
   (\<exists>r. evaluate scenario_index (to_postfix [mk_token Op_TERM (bytes_of ''run''),
          mk_token Op_AND [], mk_token Op_NOT [], mk_token Op_TERM (bytes_of ''fast'')]) = Inr r
        \<and> doc_ids (length (docs scenario_index)) r)"
proof -
  let ?q = "to_postfix [mk_token Op_TERM (bytes_of ''run''), mk_token Op_AND [],
     mk_token Op_NOT [], mk_token Op_TERM (bytes_of ''fast'')]"
  have a: "doc_ids 2 [0, 1]" and b: "doc_ids 2 [1]"
    by (simp_all add: doc_ids_def)
  have q: "postfix_ok 0 ?q"
    by (simp add: to_postfix_def mk_token_def precedence_def)
  have v: "set_and [0, 1] [1] = [1]" "set_or [0, 1] [1] = [0, 1]" "set_not [0, 1] [1] = [0]"
    by (simp_all add: set_and_def set_or_def set_not_def push_new_def)
  have e: "evaluate scenario_index ?q = Inr [1]"
    by (simp add: query_eval scenario_index_def bytes_of_def)
  from set_operations_keep_doc_ids [of 2 "[0, 1]" "[1]" "[0, 1]" scenario_index ?q]
    a b q scenario_index_ok v e
  show ?thesis by simp
qed

section \<open>Queries\<close>

text \<open>
  The searcher evaluates on the index \<open>load_index\<close> returns, whose document table has
  as many entries as the 32-bit field of the file says.
\<close>

lemma read_docs_length:
  assumes "read_docs n inp ds = Inr (ds', inp')"
  shows "length ds' = length ds + n"
  using assms
  by (induction n arbitrary: inp ds) (auto split: sum.splits)

lemma load_index_doc_count:
  assumes "load_index inp = Inr idx"
  shows "length (docs idx) < 2 ^ 32"
proof -
  from assms obtain doc_count :: u32 and inp3 ds inp4
    where "read_docs (unat doc_count) inp3 [] = Inr (ds, inp4)" and "docs idx = ds"
    by (auto simp: load_index_def split: sum.splits if_splits)
  from read_docs_length [OF this(1)] this(2) have "length (docs idx) = unat doc_count" by simp
  moreover have "unat doc_count < 2 ^ 32" using unsigned_less [of doc_count] by simp
  ultimately show ?thesis by simp
qed

text \<open>The queries of the end-to-end scenario, and the empty query.\<close>

lemma scenario_queries:
  "run_query scenario_index True (bytes_of ''run AND fast'') = Some (Inr [0])"
  "run_query scenario_index True (bytes_of ''run AND NOT fast'') = Some (Inr [1])"
  "run_query scenario_index True (bytes_of ''missingterm'') = Some (Inr [])"
  "run_query scenario_index True (bytes_of '''') = Some (Inr [])"
  by (simp_all add: tokenizer_eval query_eval stemmer_eval scenario_index_def)

lemma evaluate_term:
  assumes "length (docs idx) < 2 ^ 32"
  shows "evaluate idx (to_postfix [mk_token Op_TERM a]) = Inr (postings_for idx a)"
  using assms by (simp add: evaluate_def to_postfix_def mk_token_def)

lemma evaluate_and:
  assumes "length (docs idx) < 2 ^ 32"
  shows "evaluate idx (to_postfix [mk_token Op_TERM a, mk_token Op_AND [], mk_token Op_TERM b])
           = Inr (set_and (postings_for idx a) (postings_for idx b))"
  using assms by (simp add: evaluate_def to_postfix_def mk_token_def precedence_def)

lemma evaluate_or:
  assumes "length (docs idx) < 2 ^ 32"
  shows "evaluate idx (to_postfix [mk_token Op_TERM a, mk_token Op_OR [], mk_token Op_TERM b])
           = Inr (set_or (postings_for idx a) (postings_for idx b))"
  using assms by (simp add: evaluate_def to_postfix_def mk_token_def precedence_def)

text \<open>
  C6: on an index the searcher can hold (fewer than \<open>2^32\<close> documents, so that the loop
  filling \<open>universe\<close> ends), the result of \<open>A AND B\<close> is a subset of the results of
  \<open>A\<close> and of \<open>B\<close>, which are subsets of the result of \<open>A OR B\<close>, for all terms
  \<open>A\<close> and \<open>B\<close>.
\<close>

theorem and_below_or_above:
  assumes "length (docs idx) < 2 ^ 32"
  shows "\<exists>ra rb r_and r_or.
           evaluate idx (to_postfix [mk_token Op_TERM a]) = Inr ra \<and>
           evaluate idx (to_postfix [mk_token Op_TERM b]) = Inr rb \<and>
           evaluate idx (to_postfix [mk_token Op_TERM a, mk_token Op_AND [], mk_token Op_TERM b])
             = Inr r_and \<and>
           evaluate idx (to_postfix [mk_token Op_TERM a, mk_token Op_OR [], mk_token Op_TERM b])
             = Inr r_or \<and>
           set r_and \<subseteq> set ra \<and> set r_and \<subseteq> set rb \<and>
           set ra \<subseteq> set r_or \<and> set rb \<subseteq> set r_or"
proof -
  let ?pa = "postings_for idx a" and ?pb = "postings_for idx b"
  have "set (set_and ?pa ?pb) \<subseteq> set ?pa \<inter> set ?pb"
    unfolding set_and_def using set_and_loop_subset [of ?pa ?pb "[]"] by simp
  moreover have "set (set_or ?pa ?pb) = set ?pa \<union> set ?pb"
    unfolding set_or_def by (simp add: set_or_loop_set)
  ultimately show ?thesis
    using evaluate_term [OF assms] evaluate_and [OF assms] evaluate_or [OF assms] by auto
qed

text \<open>C6 on the scenario, with the terms \<open>run\<close> and \<open>fast\<close>.\<close>

theorem and_below_or_above_witness:
  "length (docs scenario_index) < 2 ^ 32 \<and>
   evaluate scenario_index (to_postfix [mk_token Op_TERM (bytes_of ''run'')]) = Inr [0, 1] \<and>
   evaluate scenario_index (to_postfix [mk_token Op_TERM (bytes_of ''fast'')]) = Inr [0] \<and>
   evaluate scenario_index (to_postfix [mk_token Op_TERM (bytes_of ''run''), mk_token Op_AND [],
      mk_token Op_TERM (bytes_of ''fast'')]) = Inr [0] \<and>
   evaluate scenario_index (to_postfix [mk_token Op_TERM (bytes_of ''run''), mk_token Op_OR [],
      mk_token Op_TERM (bytes_of ''fast'')]) = Inr [0, 1] \<and>
   (\<exists>ra rb r_and r_or.
      evaluate scenario_index (to_postfix [mk_token Op_TERM (bytes_of ''run'')]) = Inr ra \<and>
      evaluate scenario_index (to_postfix [mk_token Op_TERM (bytes_of ''fast'')]) = Inr rb \<and>
      evaluate scenario_index (to_postfix [mk_token Op_TERM (bytes_of ''run''), mk_token Op_AND [],
        mk_token Op_TERM (bytes_of ''fast'')]) = Inr r_and \<and>
      evaluate scenario_index (to_postfix [mk_token Op_TERM (bytes_of ''run''), mk_token Op_OR [],
        mk_token Op_TERM (bytes_of ''fast'')]) = Inr r_or \<and>
      set r_and \<subseteq> set ra \<and> set r_and \<subseteq> set rb \<and> set ra \<subseteq> set r_or \<and> set rb \<subseteq> set r_or)"
proof -
  have n: "length (docs scenario_index) < 2 ^ 32" by (simp add: scenario_index_def)
  have e: "evaluate scenario_index (to_postfix [mk_token Op_TERM (bytes_of ''run'')]) = Inr [0, 1]"
    "evaluate scenario_index (to_postfix [mk_token Op_TERM (bytes_of ''fast'')]) = Inr [0]"
    "evaluate scenario_index (to_postfix [mk_token Op_TERM (bytes_of ''run''), mk_token Op_AND [],
      mk_token Op_TERM (bytes_of ''fast'')]) = Inr [0]"
    "evaluate scenario_index (to_postfix [mk_token Op_TERM (bytes_of ''run''), mk_token Op_OR [],
      mk_token Op_TERM (bytes_of ''fast'')]) = Inr [0, 1]"
    by (simp_all add: query_eval scenario_index_def bytes_of_def)
  from n e and_below_or_above [OF n, of "bytes_of ''run''" "bytes_of ''fast''"]
  show ?thesis by blast
qed

text \<open>
  A postfix program that is not well-formed makes \<open>evaluate\<close> pop the empty stack.
\<close>

lemma evaluate_loop_underflow:
  assumes "\<not> postfix_ok (length stack) postfix"
  shows "evaluate_loop idx universe postfix stack = Inl Pop_Of_Empty_Stack"
  using assms
proof (induction postfix arbitrary: stack)
  case Nil
  then show ?case by simp
next
  case (Cons t postfix)
  show ?case
  proof (cases "tok_type t")
    case Op_TERM
    with Cons.prems Cons.IH [of "postings_for idx (tok_term t) # stack"] show ?thesis by simp
  next
    case Op_NOT
    show ?thesis
    proof (cases stack)
      case Nil
      with Op_NOT show ?thesis by simp
    next
      case (Cons a stack')
      with Op_NOT Cons.prems Cons.IH [of "set_not universe a # stack'"] show ?thesis by simp
    qed
  next
    case Op_AND
    show ?thesis
    proof (cases stack)
      case Nil
      with Op_AND show ?thesis by simp
    next
      case 1: (Cons b stack1)
      show ?thesis
      proof (cases stack1)
        case Nil
        with 1 Op_AND show ?thesis by simp
      next
        case (Cons a stack')
        with 1 Op_AND Cons.prems Cons.IH [of "set_and a b # stack'"] show ?thesis by simp
      qed
    qed
  next
    case Op_OR
    show ?thesis
    proof (cases stack)
      case Nil
      with Op_OR show ?thesis by simp
    next
      case 1: (Cons b stack1)
      show ?thesis
      proof (cases stack1)
        case Nil
        with 1 Op_OR show ?thesis by simp
      next
        case (Cons a stack')
        with 1 Op_OR Cons.prems Cons.IH [of "set_or a b # stack'"] show ?thesis by simp
      qed
    qed
  qed
qed

lemma evaluate_malformed:
  assumes "length (docs idx) < 2 ^ 32" "\<not> postfix_ok 0 postfix"
  shows "evaluate idx postfix = Inl Pop_Of_Empty_Stack"
  using assms evaluate_loop_underflow [of "[]" postfix idx]
  by (simp add: evaluate_def)

text \<open>
  C2: the queries \<open>not\<close> and \<open>and\<close> reach \<open>evaluate\<close> as a lone operator, and
  \<open>evaluate\<close> calls \<open>stack.back()\<close> on the empty stack: no error is returned, the
  behaviour is undefined.
\<close>

theorem not_alone_pops_empty_stack:
  "run_query scenario_index use_stem (bytes_of ''not'') = Some (Inl Pop_Of_Empty_Stack) \<and>
   run_query scenario_index use_stem (bytes_of ''and'') = Some (Inl Pop_Of_Empty_Stack)"
  by (simp add: tokenizer_eval query_eval scenario_index_def)

text \<open>
  C4: for the query \<open>NOT NOT X\<close>, \<open>to_postfix\<close> pops the first \<open>NOT\<close> when it reads
  the second one (equal precedence), before any operand: the postfix form is
  \<open>NOT X NOT\<close>, and \<open>evaluate\<close> calls \<open>stack.back()\<close> on the empty stack at its first
  token. The query \<open>not not run\<close> has no result, where \<open>run\<close> finds both documents.
\<close>

theorem not_not_pops_empty_stack:
  "to_postfix [mk_token Op_NOT [], mk_token Op_NOT [], mk_token Op_TERM x] =
     [mk_token Op_NOT [], mk_token Op_TERM x, mk_token Op_NOT []] \<and>
   run_query scenario_index use_stem (bytes_of ''not not run'') = Some (Inl Pop_Of_Empty_Stack) \<and>
   run_query scenario_index use_stem (bytes_of ''run'') = Some (Inr [0, 1])"
  by (simp add: tokenizer_eval query_eval stemmer_eval scenario_index_def)

text \<open>
  The stack machine itself computes the double negation: on the postfix form \<open>X NOT NOT\<close>
  it returns the posting list of \<open>X\<close>.
\<close>

lemma set_not_loop_set:
  assumes "sorted_wrt (<) u" "sorted_wrt (<) b"
  shows "set (set_not_loop u b out) = set out \<union> (set u - set b)"
  using assms
  by (induction u b out rule: set_not_loop.induct) (auto simp: less_le)

lemma strict_lists_equal:
  assumes "sorted_wrt (<) (xs :: u32 list)" "sorted_wrt (<) ys" "set xs = set ys"
  shows "xs = ys"
  using assms by (simp add: strict_sorted_equal)

lemma set_not_set_not:
  assumes "sorted_wrt (<) u" "sorted_wrt (<) p" "set p \<subseteq> set u"
  shows "set_not u (set_not u p) = p"
proof -
  have s1: "sorted_wrt (<) (set_not u p)"
    unfolding set_not_def using assms(1) by (intro set_not_loop_strict) auto
  have s2: "sorted_wrt (<) (set_not u (set_not u p))"
    unfolding set_not_def using assms(1) by (intro set_not_loop_strict) auto
  have "set (set_not u p) = set u - set p"
    unfolding set_not_def using assms by (simp add: set_not_loop_set)
  with s1 assms(1) have "set (set_not u (set_not u p)) = set u - (set u - set p)"
    unfolding set_not_def [of u "set_not_loop u p []"] set_not_def [symmetric, of u p] 
    by (simp add: set_not_loop_set set_not_def)
  with assms(3) have "set (set_not u (set_not u p)) = set p" by auto
  with s2 assms(2) show ?thesis by (intro strict_lists_equal)
qed

lemma evaluate_not_not_postfix:
  assumes "index_ok idx"
  shows "evaluate idx [mk_token Op_TERM x, mk_token Op_NOT [], mk_token Op_NOT []]
           = evaluate idx [mk_token Op_TERM x]"
proof -
  let ?n = "length (docs idx)"
  let ?u = "map of_nat [0 ..< ?n] :: u32 list"
  from assms have n: "?n < 2 ^ 32" by (simp add: index_ok_def)
  have u: "doc_ids ?n ?u" by (rule doc_ids_universe [OF n])
  have p: "doc_ids ?n (postings_for idx x)" by (rule doc_ids_postings_for [OF assms])
  have "set (postings_for idx x) \<subseteq> set ?u"
  proof
    fix d assume "d \<in> set (postings_for idx x)"
    with p have "unat d < ?n" by (auto simp: doc_ids_def list_all_iff)
    moreover have "of_nat (unat d) = d" by simp
    ultimately show "d \<in> set ?u" by (metis (no_types) atLeastLessThan_iff image_eqI le0 set_map set_upt)
  qed
  with u p have "set_not ?u (set_not ?u (postings_for idx x)) = postings_for idx x"
    by (intro set_not_set_not) (auto simp: doc_ids_def)
  with n show ?thesis by (simp add: evaluate_def mk_token_def)
qed

section \<open>The build loop\<close>

text \<open>
  The build loop returns on every corpus, keeps its invariant, and fills the document
  table with the ids of the lines that yield a record.
\<close>

lemma strict_remdups_adj:
  "sorted xs \<Longrightarrow> sorted_wrt (<) (remdups_adj (xs :: u32 list))"
  by (induction xs rule: remdups_adj.induct) (auto simp: less_le)

lemma finalize_posting:
  assumes "postings (finalize idx) t = Some plist"
  shows "\<exists>v. postings idx t = Some v \<and> plist = remdups_adj (sort v)"
  using assms by (auto simp: finalize_def)

lemma docs_finalize: "docs (finalize idx) = docs idx"
  by (simp add: finalize_def)

lemma extract_field_empty: "extract_field [] key = None"
  by (simp add: extract_field_def find_from_def)

lemma process_line_skip:
  assumes "parsed_record line = None"
  shows "process_line use_stem st line = Some st"
  using assms by (auto simp: process_line_def parsed_record_def split: option.splits)

lemma process_line_record:
  assumes "parsed_record line = Some (ident, txt)"
  shows "\<exists>tokens. tokenize builder_tokenizer txt = Some tokens \<and>
           process_line use_stem st line =
             Some (add_postings ((fst st)\<lparr>docs := docs (fst st) @ [ident]\<rparr>) (snd st) tokens use_stem,
                   snd st + 1)"
proof -
  obtain tokens where t: "tokenize builder_tokenizer txt = Some tokens"
    using tokenize_loop_total unfolding tokenize_def by blast
  from assms have "line \<noteq> []"
    by (auto simp: parsed_record_def extract_field_empty)
  with assms t show ?thesis
    by (auto simp: process_line_def parsed_record_def split: option.splits)
qed

lemma process_line_total: "\<exists>st'. process_line use_stem st line = Some st'"
proof (cases "parsed_record line")
  case None
  from process_line_skip [OF None] show ?thesis by blast
next
  case (Some r)
  obtain ident body where r: "r = (ident, body)" by (cases r)
  from process_line_record [OF Some [unfolded r]] show ?thesis by blast
qed

lemma read_corpus_append:
  "read_corpus use_stem st (xs @ ys) =
     do { st' \<leftarrow> read_corpus use_stem st xs; read_corpus use_stem st' ys }"
  by (induction xs arbitrary: st) (auto split: bind_splits)

lemma read_corpus_total: "\<exists>st'. read_corpus use_stem st lines = Some st'"
proof (induction lines arbitrary: st)
  case Nil
  show ?case by simp
next
  case (Cons line lines)
  obtain st1 where "process_line use_stem st line = Some st1"
    using process_line_total by blast
  with Cons [of st1] show ?case by simp
qed

lemma add_postings_loop_values:
  assumes "add_postings_loop p doc_id use_stem seen tokens t = Some v"
  shows "set v \<subseteq> insert doc_id (case p t of None \<Rightarrow> {} | Some w \<Rightarrow> set w)"
  using assms
proof (induction tokens arbitrary: p seen)
  case Nil
  then show ?case by auto
next
  case (Cons tok tokens)
  define tm where "tm = (if use_stem then stem_token tok else tok)"
  show ?case
  proof (cases "tm \<noteq> [] \<and> tm \<notin> seen")
    case False
    with Cons.prems have "add_postings_loop p doc_id use_stem seen tokens t = Some v"
      by (auto simp: Let_def tm_def split: if_splits)
    then show ?thesis by (rule Cons.IH)
  next
    case True
    define p' where "p' = p(tm \<mapsto> (case p tm of None \<Rightarrow> [] | Some vec \<Rightarrow> vec) @ [doc_id])"
    from True Cons.prems
    have "add_postings_loop p' doc_id use_stem (insert tm seen) tokens t = Some v"
      by (simp add: Let_def tm_def [symmetric] p'_def)
    then have "set v \<subseteq> insert doc_id (case p' t of None \<Rightarrow> {} | Some w \<Rightarrow> set w)"
      by (rule Cons.IH)
    then show ?thesis
      by (cases "t = tm") (auto simp: p'_def split: option.splits)
  qed
qed

lemma build_inv_process_line:
  assumes "build_inv st" "process_line use_stem st line = Some st'"
  shows "build_inv st'"
proof (cases "parsed_record line")
  case None
  from process_line_skip [OF None, of use_stem st] assms show ?thesis by simp
next
  case (Some r)
  obtain ident body where r: "r = (ident, body)" by (cases r)
  from process_line_record [OF Some [unfolded r], of use_stem st] assms(2)
  obtain tokens where st': "st' = (add_postings ((fst st)\<lparr>docs := docs (fst st) @ [ident]\<rparr>)
      (snd st) tokens use_stem, snd st + 1)"
    by auto
  let ?n = "length (docs (fst st))"
  from assms(1) have d: "snd st = of_nat ?n"
    and p: "\<And>t v. postings (fst st) t = Some v \<Longrightarrow> set v \<subseteq> of_nat ` {..< ?n}"
    by (auto simp: build_inv_def)
  have "set v \<subseteq> of_nat ` {..< Suc ?n}" if "postings (fst st') t = Some v" for t v
  proof -
    from that have "add_postings_loop (postings (fst st)) (snd st) use_stem {} tokens t = Some v"
      by (simp add: st' add_postings_def)
    from add_postings_loop_values [OF this]
    have "set v \<subseteq> insert (of_nat ?n) (case postings (fst st) t of None \<Rightarrow> {} | Some w \<Rightarrow> set w)"
      by (simp add: d)
    also have "\<dots> \<subseteq> of_nat ` {..< Suc ?n}"
      using p [of t] by (auto simp: lessThan_Suc split: option.splits)
    finally show ?thesis .
  qed
  then show ?thesis by (simp add: build_inv_def st' add_postings_def d)
qed

lemma build_inv_read_corpus:
  assumes "build_inv st" "read_corpus use_stem st lines = Some st'"
  shows "build_inv st'"
  using assms
proof (induction lines arbitrary: st)
  case Nil
  then show ?case by simp
next
  case (Cons line lines)
  from Cons.prems(2) obtain st1 where 1: "process_line use_stem st line = Some st1"
    and 2: "read_corpus use_stem st1 lines = Some st'"
    by (auto split: bind_splits)
  from build_inv_process_line [OF Cons.prems(1) 1] 2 show ?case by (rule Cons.IH)
qed

lemma docs_read_corpus:
  assumes "read_corpus use_stem st lines = Some st'"
  shows "docs (fst st') = docs (fst st) @ map fst (List.map_filter parsed_record lines)"
  using assms
proof (induction lines arbitrary: st)
  case Nil
  then show ?case by (simp add: List.map_filter_simps)
next
  case (Cons line lines)
  from Cons.prems obtain st1 where 1: "process_line use_stem st line = Some st1"
    and 2: "read_corpus use_stem st1 lines = Some st'"
    by (auto split: bind_splits)
  show ?case
  proof (cases "parsed_record line")
    case None
    with process_line_skip [OF None, of use_stem st] 1 Cons.IH [OF 2] show ?thesis
      by (simp add: List.map_filter_simps)
  next
    case (Some r)
    obtain ident body where r: "r = (ident, body)" by (cases r)
    from process_line_record [OF Some [unfolded r], of use_stem st] 1
    have "docs (fst st1) = docs (fst st) @ [ident]"
      by (auto simp: add_postings_def)
    with Cons.IH [OF 2] Some r show ?thesis
      by (simp add: List.map_filter_simps)
  qed
qed

lemma build_index_Some:
  "\<exists>st. read_corpus use_stem (\<lparr>docs = [], postings = Map.empty\<rparr>, 0) lines = Some st \<and>
     build_index lines use_stem = Some (finalize (fst st)) \<and> build_inv st"
proof -
  obtain st where st: "read_corpus use_stem (\<lparr>docs = [], postings = Map.empty\<rparr>, 0) lines = Some st"
    using read_corpus_total by blast
  have "build_inv (\<lparr>docs = [], postings = Map.empty\<rparr>, 0)"
    by (simp add: build_inv_def)
  from build_inv_read_corpus [OF this st] st show ?thesis
    by (auto simp: build_index_def)
qed

text \<open>The build of the scenario corpus, step by step.\<close>

lemma parsed_d1:
  \<open>parsed_record (bytes_of ''{"id":"d1","text":"Cats run fast"}'')
     = Some (bytes_of ''d1'', bytes_of ''Cats run fast'')\<close>
  by (simp add: parsed_record_def builder_eval bytes_of_def)

lemma tokens_d1:
  "tokenize builder_tokenizer (bytes_of ''Cats run fast'') = Some (map bytes_of [''cats'', ''run'', ''fast''])"
  by (simp add: tokenizer_eval builder_tokenizer_def)

lemma stems: "stem_token (bytes_of ''cats'') = bytes_of ''cat''"
  "stem_token (bytes_of ''run'') = bytes_of ''run''"
  "stem_token (bytes_of ''fast'') = bytes_of ''fast''"
  "stem_token (bytes_of ''dogs'') = bytes_of ''dog''"
  "stem_token (bytes_of ''slow'') = bytes_of ''slow''"
  by (simp_all add: stemmer_eval bytes_of_def)

lemma read_scenario:
  "read_corpus True (\<lparr>docs = [], postings = Map.empty\<rparr>, 0) scenario_corpus =
     Some (\<lparr>docs = [bytes_of ''d1'', bytes_of ''d2''],
            postings = [bytes_of ''cat'' \<mapsto> [0], bytes_of ''run'' \<mapsto> [0],
                        bytes_of ''fast'' \<mapsto> [0], bytes_of ''dog'' \<mapsto> [1],
                        bytes_of ''run'' \<mapsto> [0, 1], bytes_of ''slow'' \<mapsto> [1]]\<rparr>, 2)"
  by (simp add: scenario_corpus_def builder_eval tokenizer_eval stemmer_eval)

lemma build_scenario: "build_index scenario_corpus True = Some scenario_index"
  by (auto simp: build_index_def read_scenario finalize_def scenario_index_def fun_eq_iff bytes_of_def)

text \<open>
  C5: the build returns an index on every corpus, and every posting list of that index
  is strictly increasing, hence without duplicates.
\<close>

theorem posting_lists_strictly_increasing:
  "(\<exists>idx. build_index lines use_stem = Some idx) \<and>
   (\<forall>idx t plist. build_index lines use_stem = Some idx \<and> postings idx t = Some plist
      \<longrightarrow> sorted_wrt (<) plist \<and> distinct plist)"
proof -
  from build_index_Some [of use_stem lines]
  obtain st where b: "build_index lines use_stem = Some (finalize (fst st))"
    by auto
  have "sorted_wrt (<) plist \<and> distinct plist"
    if "postings (finalize (fst st)) t = Some plist" for t plist
  proof -
    from finalize_posting [OF that] obtain v where "plist = remdups_adj (sort v)" by blast
    then have "sorted_wrt (<) plist" by (simp add: strict_remdups_adj)
    then show ?thesis by (simp add: strict_sorted_iff)
  qed
  with b show ?thesis by auto
qed

text \<open>C5 on the scenario: the term \<open>run\<close> has the posting list \<open>[0, 1]\<close>.\<close>

theorem posting_lists_strictly_increasing_witness:
  "build_index scenario_corpus True = Some scenario_index \<and>
   postings scenario_index (bytes_of ''run'') = Some [0, 1] \<and>
   sorted_wrt (<) [0, 1 :: u32] \<and> distinct [0, 1 :: u32]"
proof -
  have p: "postings scenario_index (bytes_of ''run'') = Some [0, 1]"
    by (simp add: scenario_index_def bytes_of_def)
  from posting_lists_strictly_increasing [of scenario_corpus True] build_scenario p
  have "sorted_wrt (<) [0, 1 :: u32] \<and> distinct [0, 1 :: u32]" by blast
  with build_scenario p show ?thesis by blast
qed

text \<open>
  C8: a line from which the field \<open>id\<close> or the field \<open>text\<close> cannot be extracted leaves
  the state of the build loop as it is (no entry in the document table, no document id
  used), and the build goes on as if the line were not there: the document table holds
  the ids of the lines that yield a record, in order, and the counter is their number.
\<close>

theorem line_without_field_is_skipped:
  assumes "extract_field line (bytes_of ''id'') = None \<or> extract_field line (bytes_of ''text'') = None"
  shows "process_line use_stem st line = Some st \<and>
    read_corpus use_stem st (before @ line # after) = read_corpus use_stem st (before @ after) \<and>
    build_index (before @ line # after) use_stem = build_index (before @ after) use_stem \<and>
    (\<exists>idx doc_id.
       read_corpus use_stem (\<lparr>docs = [], postings = Map.empty\<rparr>, 0) (before @ line # after)
         = Some (idx, doc_id) \<and>
       docs idx = map fst (List.map_filter parsed_record (before @ after)) \<and>
       doc_id = of_nat (length (docs idx)))"
proof -
  from assms have n: "parsed_record line = None"
    by (auto simp: parsed_record_def split: option.splits)
  have skip: "process_line use_stem s line = Some s" for s
    by (rule process_line_skip [OF n])
  have eq: "read_corpus use_stem s (before @ line # after) = read_corpus use_stem s (before @ after)" for s
    by (cases "read_corpus use_stem s before") (simp_all add: read_corpus_append skip)
  let ?init = "(\<lparr>docs = [], postings = Map.empty\<rparr>, 0) :: index \<times> u32"
  obtain st' where st': "read_corpus use_stem ?init (before @ after) = Some st'"
    using read_corpus_total by blast
  have "build_inv ?init" by (simp add: build_inv_def)
  from build_inv_read_corpus [OF this st'] have "snd st' = of_nat (length (docs (fst st')))"
    by (simp add: build_inv_def)
  moreover from docs_read_corpus [OF st']
  have "docs (fst st') = map fst (List.map_filter parsed_record (before @ after))" by simp
  ultimately have "\<exists>idx doc_id.
       read_corpus use_stem ?init (before @ line # after) = Some (idx, doc_id) \<and>
       docs idx = map fst (List.map_filter parsed_record (before @ after)) \<and>
       doc_id = of_nat (length (docs idx))"
    using st' eq [of ?init] by (cases st') auto
  with skip eq show ?thesis by (simp add: build_index_def)
qed

lemma no_text_field: \<open>extract_field (bytes_of ''{"id":"d3"}'') (bytes_of ''text'') = None\<close>
  by (simp add: builder_eval bytes_of_def)

text \<open>
  C8 on a line with no field \<open>text\<close>, between the two lines of the scenario.
\<close>

theorem line_without_field_is_skipped_witness:
  \<open>extract_field (bytes_of ''{"id":"d3"}'') (bytes_of ''text'') = None \<and>
   process_line True (\<lparr>docs = [bytes_of ''d1''], postings = [bytes_of ''cat'' \<mapsto> [0]]\<rparr>, 1)
       (bytes_of ''{"id":"d3"}'')
     = Some (\<lparr>docs = [bytes_of ''d1''], postings = [bytes_of ''cat'' \<mapsto> [0]]\<rparr>, 1) \<and>
   build_index ([bytes_of ''{"id":"d1","text":"Cats run fast"}''] @ bytes_of ''{"id":"d3"}'' #
                [bytes_of ''{"id":"d2","text":"Dogs run slow"}'']) True
     = build_index ([bytes_of ''{"id":"d1","text":"Cats run fast"}''] @
                    [bytes_of ''{"id":"d2","text":"Dogs run slow"}'']) True \<and>
   build_index ([bytes_of ''{"id":"d1","text":"Cats run fast"}''] @
                [bytes_of ''{"id":"d2","text":"Dogs run slow"}'']) True = Some scenario_index\<close>
proof -
  have b: \<open>build_index ([bytes_of ''{"id":"d1","text":"Cats run fast"}''] @
                [bytes_of ''{"id":"d2","text":"Dogs run slow"}'']) True = Some scenario_index\<close>
    using build_scenario by (simp add: scenario_corpus_def)
  from no_text_field
  have \<open>extract_field (bytes_of ''{"id":"d3"}'') (bytes_of ''id'') = None \<or>
        extract_field (bytes_of ''{"id":"d3"}'') (bytes_of ''text'') = None\<close> ..
  from line_without_field_is_skipped [OF this, of True _
      \<open>[bytes_of ''{"id":"d1","text":"Cats run fast"}'']\<close>
      \<open>[bytes_of ''{"id":"d2","text":"Dogs run slow"}'']\<close>]
    no_text_field b
  show ?thesis by blast
qed

section \<open>Saving and loading the index\<close>

text \<open>
  Each reader returns what its writer wrote, and the rest of the file, as long as the
  size written fits its 32-bit field.
\<close>

lemma uint32_of_bytes_write: "uint32_of_bytes (write_uint32 v) = v"
  unfolding write_uint32_def uint32_of_bytes.simps
proof (rule bit_word_eqI)
  fix n :: nat
  assume "n < LENGTH(32)"
  then have n: "n < 32" by simp
  consider "n < 8" | "8 \<le> n" "n < 16" | "16 \<le> n" "n < 24" | "24 \<le> n" by linarith
  then show "bit (ucast (ucast v :: byte) OR push_bit 8 (ucast (ucast (drop_bit 8 v) :: byte))
               OR push_bit 16 (ucast (ucast (drop_bit 16 v) :: byte))
               OR push_bit 24 (ucast (ucast (drop_bit 24 v) :: byte)) :: u32) n = bit v n"
    using n by cases (auto simp: bit_simps)
qed

lemma read_uint32_write: "read_uint32 (write_uint32 v @ rest) = Inr (v, rest)"
proof -
  have "length (write_uint32 v) = 4" by (simp add: write_uint32_def)
  then show ?thesis
    by (simp add: read_uint32_def read_bytes_def uint32_of_bytes_write)
qed

lemma unat_of_nat_u32: "n < 2 ^ 32 \<Longrightarrow> unat (of_nat n :: u32) = n"
  by (simp add: unat_of_nat)

lemma read_string_write:
  assumes "length s < 2 ^ 32"
  shows "read_string (write_string s @ rest) = Inr (s, rest)"
  using assms
  by (simp add: read_string_def write_string_def Let_def read_uint32_write read_bytes_def
      unat_of_nat_u32)

lemma read_docs_write:
  assumes "list_all (\<lambda>d. length d < 2 ^ 32) ds"
  shows "read_docs (length ds) (concat (map write_string ds) @ rest) acc = Inr (acc @ ds, rest)"
  using assms
  by (induction ds arbitrary: acc) (simp_all add: read_string_write)

lemma uint32s_of_bytes_write: "uint32s_of_bytes (concat (map write_uint32 plist)) = plist"
proof (induction plist)
  case Nil
  show ?case by simp
next
  case (Cons v plist)
  have "uint32_of_bytes [ucast v, ucast (drop_bit 8 v), ucast (drop_bit 16 v), ucast (drop_bit 24 v)] = v"
    using uint32_of_bytes_write [of v] by (simp add: write_uint32_def)
  with Cons show ?case by (simp add: write_uint32_def)
qed

lemma length_write_uint32s: "length (concat (map write_uint32 plist)) = length plist * 4"
  by (induction plist) (simp_all add: write_uint32_def)


lemma read_postings_write:
  assumes "distinct ks"
    and "\<forall>k\<in>set ks. length k < 2 ^ 32 \<and> (\<exists>plist. postings idx k = Some plist \<and> length plist < 2 ^ 32)"
    and "\<forall>k\<in>set ks. m k = None"
  shows "read_postings (length ks) (concat (map (write_posting idx) ks) @ rest) m
           = Inr (\<lambda>t. if t \<in> set ks then postings idx t else m t, rest)"
  using assms
proof (induction ks arbitrary: m)
  case Nil
  show ?case by simp
next
  case (Cons k ks)
  from Cons.prems(2) obtain plist where k: "length k < 2 ^ 32"
    and p: "postings idx k = Some plist" and l: "length plist < 2 ^ 32"
    by auto
  from Cons.prems(3) have mk: "m k = None" by simp
  let ?m = "m(k \<mapsto> plist)"
  have "read_postings (length (k # ks)) (concat (map (write_posting idx) (k # ks)) @ rest) m
          = read_postings (length ks) (concat (map (write_posting idx) ks) @ rest) ?m"
    using k p l mk
    by (simp add: write_posting_def read_string_write read_uint32_write read_bytes_def
        unat_of_nat_u32 length_write_uint32s uint32s_of_bytes_write emplace_def)
  also have "\<dots> = Inr (\<lambda>t. if t \<in> set ks then postings idx t else ?m t, rest)"
    using Cons.prems by (intro Cons.IH) auto
  also have "(\<lambda>t. if t \<in> set ks then postings idx t else ?m t)
               = (\<lambda>t. if t \<in> set (k # ks) then postings idx t else m t)"
    using p by (auto simp: fun_eq_iff)
  finally show ?case .
qed

lemma load_save_general:
  assumes "fits_uint32 idx ks" "distinct ks" "set ks = dom (postings idx)"
    and pl: "\<And>t plist. postings idx t = Some plist \<Longrightarrow> length plist < 2 ^ 32"
  shows "load_index (save_index idx ks) = Inr idx"
proof -
  from assms(1) have nk: "length ks < 2 ^ 32" and nd: "length (docs idx) < 2 ^ 32"
    and ds: "list_all (\<lambda>d. length d < 2 ^ 32) (docs idx)"
    and kl: "list_all (\<lambda>k. length k < 2 ^ 32) ks"
    by (simp_all add: fits_uint32_def)
  have ks: "\<forall>k\<in>set ks. length k < 2 ^ 32 \<and> (\<exists>plist. postings idx k = Some plist \<and> length plist < 2 ^ 32)"
  proof
    fix k assume k: "k \<in> set ks"
    with assms(3) obtain plist where "postings idx k = Some plist" by auto
    with pl [OF this] kl k show "length k < 2 ^ 32 \<and> (\<exists>plist. postings idx k = Some plist \<and> length plist < 2 ^ 32)"
      by (auto simp: list_all_iff)
  qed
  have "(\<lambda>t. if t \<in> set ks then postings idx t else None) = postings idx"
    using assms(3) by (auto simp: fun_eq_iff)
  then have rp: "read_postings (length ks) (concat (map (write_posting idx) ks)) Map.empty
          = Inr (postings idx, [])"
    using read_postings_write [OF assms(2) ks, of Map.empty "[]"] by simp
  have rd: "read_docs (length (docs idx))
          (concat (map write_string (docs idx)) @ concat (map (write_posting idx) ks)) []
          = Inr (docs idx, concat (map (write_posting idx) ks))"
    using read_docs_write [OF ds, of _ "[]"] by simp
  have ud: "unat (of_nat (length (docs idx)) :: u32) = length (docs idx)"
    using nd by (rule unat_of_nat_u32)
  have uk: "unat (of_nat (length ks) :: u32) = length ks"
    using nk by (rule unat_of_nat_u32)
  show ?thesis
    unfolding save_index_def load_index_def
    by (simp add: read_bytes_def bytes_of_def read_uint32_write ud uk rd rp)
qed

lemma built_posting_list_length:
  assumes "build_index lines use_stem = Some idx" "postings idx t = Some plist"
  shows "length plist \<le> length (docs idx)"
proof -
  from build_index_Some [of use_stem lines] assms(1)
  obtain st where idx: "idx = finalize (fst st)" and inv: "build_inv st" by auto
  let ?n = "length (docs (fst st))"
  from assms(2) idx finalize_posting obtain v where v: "postings (fst st) t = Some v"
    and plist: "plist = remdups_adj (sort v)" by blast
  from inv v have "set v \<subseteq> of_nat ` {..< ?n}" by (simp add: build_inv_def)
  then have "card (set plist) \<le> card ((of_nat :: nat \<Rightarrow> u32) ` {..< ?n})"
    by (simp add: plist card_mono)
  also have "\<dots> \<le> ?n" using card_image_le [of "{..< ?n}" "of_nat :: nat \<Rightarrow> u32"] by simp
  finally have "card (set plist) \<le> ?n" .
  moreover have "distinct plist"
    using strict_remdups_adj [of "sort v"] by (simp add: plist strict_sorted_iff)
  ultimately show ?thesis by (simp add: distinct_card idx docs_finalize)
qed

text \<open>
  C1 (amended): for every corpus and stemming flag, if the built index has fewer than
  \<open>2^32\<close> documents and fewer than \<open>2^32\<close> terms and every external id and every term is
  shorter than \<open>2^32\<close> bytes, then loading the saved file yields the built index again:
  the same document table and the same posting list for every term, whatever the order
  \<open>ks\<close> in which the terms were written.
\<close>

theorem load_save_build:
  assumes "build_index lines use_stem = Some idx"
    and "distinct ks" and "set ks = dom (postings idx)"
    and "fits_uint32 idx ks"
  shows "load_index (save_index idx ks) = Inr idx"
proof (rule load_save_general [OF assms(4,2,3)])
  fix t plist assume "postings idx t = Some plist"
  from built_posting_list_length [OF assms(1) this] assms(4)
  show "length plist < 2 ^ 32" by (simp add: fits_uint32_def)
qed

text \<open>C1 (amended) on the scenario.\<close>

theorem load_save_build_witness:
  "build_index scenario_corpus True = Some scenario_index \<and>
   distinct scenario_terms \<and> set scenario_terms = dom (postings scenario_index) \<and>
   fits_uint32 scenario_index scenario_terms \<and>
   load_index (save_index scenario_index scenario_terms) = Inr scenario_index"
proof -
  have d: "distinct scenario_terms" by (simp add: scenario_terms_def bytes_of_def)
  have s: "set scenario_terms = dom (postings scenario_index)"
    by (auto simp: scenario_terms_def scenario_index_def bytes_of_def)
  have f: "fits_uint32 scenario_index scenario_terms"
    by (simp add: fits_uint32_def scenario_terms_def scenario_index_def bytes_of_def)
  from load_save_build [OF build_scenario d s f] build_scenario d s f
  show ?thesis by blast
qed

text \<open>The bytes of a saved index, on two terms of the scenario.\<close>

lemma save_scenario:
  "save_index scenario_index (map bytes_of [''run'', ''cat'']) =
     bytes_of ''BIDX1'' @ [2, 0, 0, 0] @ [2, 0, 0, 0]
     @ [2, 0, 0, 0] @ bytes_of ''d1'' @ [2, 0, 0, 0] @ bytes_of ''d2''
     @ [3, 0, 0, 0] @ bytes_of ''run'' @ [2, 0, 0, 0] @ [0, 0, 0, 0] @ [1, 0, 0, 0]
     @ [3, 0, 0, 0] @ bytes_of ''cat'' @ [1, 0, 0, 0] @ [0, 0, 0, 0]"
  by (simp add: save_index_def write_posting_def write_string_def write_uint32_def
      scenario_index_def bytes_of_def)

text \<open>The line with the long id: its build, its file, and the index loaded from it.\<close>

lemma length_big_id: "length big_id = 2 ^ 32"
  by (simp add: big_id_def)

lemma decode_loop_plain:
  assumes "list_all (\<lambda>c. c \<noteq> 0x5C \<and> c \<noteq> 0x22) xs"
  shows "decode_loop (xs @ 0x22 # rest) out = Some (out @ xs)"
  using assms by (induction xs arbitrary: out) simp_all

lemma big_id_plain: "list_all (\<lambda>c. c \<noteq> 0x5C \<and> c \<noteq> 0x22) big_id"
  by (simp add: big_id_def list_all_iff)

lemma decode_big_id: "decode_loop (big_id @ [0x22, 0x7D]) [] = Some big_id"
  using decode_loop_plain [OF big_id_plain, of "[0x7D]" "[]"] by simp

lemma parsed_big_line: "parsed_record big_line = Some (big_id, [])"
  by (simp add: parsed_record_def builder_eval big_line_def bytes_of_def length_big_id
      decode_big_id)

lemma tokenize_empty: "tokenize tk [] = Some []"
  by (simp add: tokenize_def tokenize_loop_done)

lemma build_big_line: "build_index [big_line] use_stem = Some big_index"
proof -
  have "big_line \<noteq> []" by (simp add: big_line_def bytes_of_def)
  with parsed_big_line
  have "process_line use_stem (\<lparr>docs = [], postings = Map.empty\<rparr>, 0) big_line
          = Some (\<lparr>docs = [big_id], postings = Map.empty\<rparr>, 1)"
    by (auto simp: process_line_def parsed_record_def tokenize_empty add_postings_def
        split: option.splits)
  then show ?thesis
    by (simp add: build_index_def finalize_def big_index_def)
qed

lemma write_string_big_id: "write_string big_id = write_uint32 0"
proof -
  have z: "(of_nat (length big_id) :: u32) = 0"
    unfolding length_big_id word_of_nat_eq_0_iff by simp
  show ?thesis unfolding write_string_def Let_def z by simp
qed

lemma load_save_big_index:
  "load_index (save_index big_index []) = Inr \<lparr>docs = [[]], postings = Map.empty\<rparr>"
  by (simp add: save_index_def load_index_def big_index_def write_string_big_id read_bytes_def
      bytes_of_def read_uint32_def read_string_def write_uint32_def)

text \<open>
  C1 as stated, for every corpus, fails on an external id of \<open>2^32\<close> bytes:
  \<open>write_string\<close> casts the length to \<open>uint32_t\<close>, writes the length 0 and no byte, and
  the loaded document table holds the empty string.
\<close>

theorem load_save_loses_long_id:
  "build_index [big_line] True = Some big_index \<and>
   distinct ([] :: str list) \<and> set [] = dom (postings big_index) \<and>
   load_index (save_index big_index []) = Inr \<lparr>docs = [[]], postings = Map.empty\<rparr> \<and>
   load_index (save_index big_index []) \<noteq> Inr big_index"
proof -
  have "big_id \<noteq> []" using length_big_id by auto
  then have "\<lparr>docs = [[]], postings = Map.empty\<rparr> \<noteq> big_index"
    by (auto simp: big_index_def)
  with build_big_line load_save_big_index show ?thesis
    by (simp add: big_index_def)
qed

end
